theory Spec2Isabelle
  imports Main "HOL-Library.Word" "HOL-Library.AList"
begin

unbundle bit_operations_syntax

section \<open>The order service (src/order/app.py)\<close>

text \<open>
  The order service keeps order records in Redis hashes, asks the stock service for item
  prices over HTTP, and drives checkout over Kafka. The handlers of \<^verbatim>\<open>app.py\<close> are
  embedded as functions on an explicit Redis state; the library calls they make
  (\<^verbatim>\<open>json\<close>, \<^verbatim>\<open>int\<close>, \<^verbatim>\<open>bytes.decode\<close>, the redis-py pipeline, kafka-python's
  \<^verbatim>\<open>murmur2\<close>) are modelled beside them, each from its documented behaviour.

  Python \<^verbatim>\<open>str\<close> and the \<^verbatim>\<open>bytes\<close> Redis stores are both \<^typ>\<open>string\<close> here, a list
  of bytes: a \<^verbatim>\<open>str\<close> is given by its UTF-8 encoding. So \<^verbatim>\<open>str.encode("utf-8")\<close> and
  redis-py's encoding of an argument keep the bytes, and \<^verbatim>\<open>bytes.decode()\<close> keeps them
  when they are UTF-8 and raises otherwise.
\<close>

subsection \<open>Python str and UTF-8\<close>

text \<open>
  \<open>utf8_next\<close> reads one code point off the front of a byte string, as the strict UTF-8
  decoder does: the shortest form only, no surrogate, nothing above U+10FFFF.
\<close>

definition continuation :: "char \<Rightarrow> bool" where
  "continuation c = (128 \<le> (of_char c :: nat) \<and> (of_char c :: nat) < 192)"

definition utf8_next :: "string \<Rightarrow> (nat \<times> string) option" where
  "utf8_next s =
     (case s of
        [] \<Rightarrow> None
      | c0 # s1 \<Rightarrow>
          (let b0 = (of_char c0 :: nat) in
           if b0 < 128 then Some (b0, s1)
           else if 194 \<le> b0 \<and> b0 < 224 then
             (case s1 of
                c1 # s2 \<Rightarrow>
                  if continuation c1
                  then Some ((b0 - 192) * 64 + (of_char c1 - 128), s2)
                  else None
              | _ \<Rightarrow> None)
           else if 224 \<le> b0 \<and> b0 < 240 then
             (case s1 of
                c1 # c2 # s3 \<Rightarrow>
                  (let cp = (b0 - 224) * 4096 + (of_char c1 - 128) * 64 + (of_char c2 - 128)
                   in if continuation c1 \<and> continuation c2 \<and> 2048 \<le> cp \<and>
                         \<not> (55296 \<le> cp \<and> cp < 57344)
                      then Some (cp, s3) else None)
              | _ \<Rightarrow> None)
           else if 240 \<le> b0 \<and> b0 < 245 then
             (case s1 of
                c1 # c2 # c3 # s4 \<Rightarrow>
                  (let cp = (b0 - 240) * 262144 + (of_char c1 - 128) * 4096
                            + (of_char c2 - 128) * 64 + (of_char c3 - 128)
                   in if continuation c1 \<and> continuation c2 \<and> continuation c3 \<and>
                         65536 \<le> cp \<and> cp < 1114112
                      then Some (cp, s4) else None)
              | _ \<Rightarrow> None)
           else None))"

lemma utf8_next_shorter: "utf8_next s = Some (cp, rest) \<Longrightarrow> length rest < length s"
  by (auto simp: utf8_next_def Let_def split: list.splits if_splits)

text \<open>
  The code points of a \<^verbatim>\<open>str\<close>. Flask hands a handler the segments of the URL path
  decoded with replacement, and \<^verbatim>\<open>str(uuid.uuid4())\<close> is ASCII, so every \<^verbatim>\<open>str\<close> a
  handler holds is UTF-8. The functions on \<^verbatim>\<open>str\<close> are total all the same: on other
  byte strings they follow Python's \<^verbatim>\<open>surrogateescape\<close>, a byte \<open>b\<close> that does not start
  a code point standing for the lone surrogate U+DC00 + \<open>b\<close>. (redis-py would not send
  such a \<^verbatim>\<open>str\<close>; no handler is given one.)
\<close>

function codepoints :: "string \<Rightarrow> nat list" where
  "codepoints [] = []"
| "codepoints (c # s) =
     (case utf8_next (c # s) of
        Some (cp, rest) \<Rightarrow> cp # codepoints rest
      | None \<Rightarrow> (56320 + of_char c) # codepoints s)"
  by pat_completeness auto

termination codepoints
  by (relation "measure length") (auto dest: utf8_next_shorter)

declare codepoints.simps(2) [simp del]

text \<open>The byte strings \<^verbatim>\<open>bytes.decode()\<close> accepts, and those of ASCII characters only.\<close>

definition utf8 :: "string \<Rightarrow> bool" where
  "utf8 s = list_all (\<lambda>cp. cp < 55296 \<or> 57344 \<le> cp) (codepoints s)"

definition ascii :: "string \<Rightarrow> bool" where
  "ascii s = list_all (\<lambda>c. (of_char c :: nat) < 128) s"

text \<open>The UTF-8 encoding of a code point.\<close>

definition utf8_bytes :: "nat \<Rightarrow> string" where
  "utf8_bytes cp =
     (if cp < 128 then [char_of cp]
      else if cp < 2048 then [char_of (192 + cp div 64), char_of (128 + cp mod 64)]
      else if cp < 65536 then
        [char_of (224 + cp div 4096), char_of (128 + cp div 64 mod 64),
         char_of (128 + cp mod 64)]
      else
        [char_of (240 + cp div 262144), char_of (128 + cp div 4096 mod 64),
         char_of (128 + cp div 64 mod 64), char_of (128 + cp mod 64)])"

subsection \<open>JSON values and the text of a list of strings\<close>

datatype json =
    JNull
  | JBool bool
  | JInt int
  | JStr string
  | JArr "json list"
  | JObj "(string \<times> json) list"

text \<open>The value under a name in an object; \<open>None\<close> when there is none.\<close>

fun json_get :: "json \<Rightarrow> string \<Rightarrow> json option" where
  "json_get (JObj members) name = map_of members name"
| "json_get _ name = None"

text \<open>
  \<^verbatim>\<open>json.dumps\<close> on a \<^verbatim>\<open>str\<close> with the default \<^verbatim>\<open>ensure_ascii=True\<close>: the quote and
  the backslash are escaped, the control characters with a short name get it, and every
  other code point outside \<^verbatim>\<open>' '..'~'\<close> becomes \<^verbatim>\<open>\uxxxx\<close> in lower-case hex, a code
  point from U+10000 on as its two surrogates.
\<close>

definition hexdigit :: "nat \<Rightarrow> char" where
  "hexdigit n = (if n < 10 then char_of (48 + n) else char_of (87 + n))"

definition hex4_digits :: "nat \<Rightarrow> string" where
  "hex4_digits n =
     [hexdigit (n div 4096), hexdigit (n div 256 mod 16), hexdigit (n div 16 mod 16),
      hexdigit (n mod 16)]"

definition json_escape :: "nat \<Rightarrow> string" where
  "json_escape cp =
     (if cp = 34 then [CHR 0x5C, CHR 0x22]
      else if cp = 92 then [CHR 0x5C, CHR 0x5C]
      else if cp = 10 then [CHR 0x5C, CHR ''n'']
      else if cp = 13 then [CHR 0x5C, CHR ''r'']
      else if cp = 9 then [CHR 0x5C, CHR ''t'']
      else if cp = 8 then [CHR 0x5C, CHR ''b'']
      else if cp = 12 then [CHR 0x5C, CHR ''f'']
      else if cp < 32 \<or> 126 < cp then
        (if cp < 65536 then [CHR 0x5C, CHR ''u''] @ hex4_digits cp
         else
           [CHR 0x5C, CHR ''u''] @ hex4_digits (55296 + (cp - 65536) div 1024) @
           [CHR 0x5C, CHR ''u''] @ hex4_digits (56320 + (cp - 65536) mod 1024))
      else [char_of cp])"

definition json_dumps_str :: "string \<Rightarrow> string" where
  "json_dumps_str s = CHR 0x22 # concat (map json_escape (codepoints s)) @ [CHR 0x22]"

text \<open>\<^verbatim>\<open>json.dumps\<close> on a list of \<^verbatim>\<open>str\<close>: the elements joined by \<^verbatim>\<open>", "\<close> in brackets.\<close>

fun json_join :: "string list \<Rightarrow> string" where
  "json_join [] = []"
| "json_join [x] = json_dumps_str x"
| "json_join (x # y # ys) = json_dumps_str x @ '', '' @ json_join (y # ys)"

definition json_dumps :: "string list \<Rightarrow> string" where
  "json_dumps xs = ''['' @ json_join xs @ '']''"

text \<open>
  \<^verbatim>\<open>json.loads\<close>, for the texts that are an array of strings: white space between the
  tokens, every escape of the JSON grammar inside a string, no raw control character.
  A \<^verbatim>\<open>\u\<close> escape gives the UTF-8 bytes of its code point, two escapes that are a
  surrogate pair those of the code point they spell, and a lone \<^verbatim>\<open>\udc80\<close>..\<^verbatim>\<open>\udcff\<close>
  the byte it stands for. \<open>None\<close> is \<^verbatim>\<open>JSONDecodeError\<close>. A text of another shape (an
  array of numbers, an object, any other lone surrogate) is outside this model and is
  \<open>None\<close> as well; the handlers only ever store what \<open>json_dumps\<close> returns.
\<close>

definition is_ws :: "char \<Rightarrow> bool" where
  "is_ws c = (c = CHR '' '' \<or> c = CHR 0x09 \<or> c = CHR 0x0A \<or> c = CHR 0x0D)"

definition skip_ws :: "string \<Rightarrow> string" where
  "skip_ws s = dropWhile is_ws s"

definition hexval :: "char \<Rightarrow> nat option" where
  "hexval c =
     (let n = (of_char c :: nat) in
      if 48 \<le> n \<and> n \<le> 57 then Some (n - 48)
      else if 97 \<le> n \<and> n \<le> 102 then Some (n - 87)
      else if 65 \<le> n \<and> n \<le> 70 then Some (n - 55)
      else None)"

definition hex4 :: "char \<Rightarrow> char \<Rightarrow> char \<Rightarrow> char \<Rightarrow> nat option" where
  "hex4 a b c d =
     (case (hexval a, hexval b, hexval c, hexval d) of
        (Some h3, Some h2, Some h1, Some h0) \<Rightarrow> Some (4096 * h3 + 256 * h2 + 16 * h1 + h0)
      | _ \<Rightarrow> None)"

definition unescape :: "char \<Rightarrow> char option" where
  "unescape e =
     (if e = CHR 0x22 then Some (CHR 0x22)
      else if e = CHR 0x5C then Some (CHR 0x5C)
      else if e = CHR ''/'' then Some (CHR ''/'')
      else if e = CHR ''n'' then Some (CHR 0x0A)
      else if e = CHR ''r'' then Some (CHR 0x0D)
      else if e = CHR ''t'' then Some (CHR 0x09)
      else if e = CHR ''b'' then Some (CHR 0x08)
      else if e = CHR ''f'' then Some (CHR 0x0C)
      else None)"

definition app_fst :: "'a list \<Rightarrow> ('a list \<times> 'b) option \<Rightarrow> ('a list \<times> 'b) option" where
  "app_fst xs r = (case r of None \<Rightarrow> None | Some (ys, rest) \<Rightarrow> Some (xs @ ys, rest))"

text \<open>Four hex digits, and what follows a backslash: the bytes it stands for and the rest.\<close>

definition scan_hex4 :: "string \<Rightarrow> (nat \<times> string) option" where
  "scan_hex4 s =
     (case s of
        h3 # h2 # h1 # h0 # rest \<Rightarrow> map_option (\<lambda>n. (n, rest)) (hex4 h3 h2 h1 h0)
      | _ \<Rightarrow> None)"

definition scan_escape :: "string \<Rightarrow> (string \<times> string) option" where
  "scan_escape s =
     (case s of
        [] \<Rightarrow> None
      | e # r \<Rightarrow>
          if e = CHR ''u'' then
            (case scan_hex4 r of
               None \<Rightarrow> None
             | Some (n, r') \<Rightarrow>
                 if 55296 \<le> n \<and> n < 56320 then
                   (case r' of
                      b # u # r2 \<Rightarrow>
                        if b = CHR 0x5C \<and> u = CHR ''u'' then
                          (case scan_hex4 r2 of
                             None \<Rightarrow> None
                           | Some (m, r3) \<Rightarrow>
                               if 56320 \<le> m \<and> m < 57344
                               then Some (utf8_bytes (65536 + (n - 55296) * 1024 + (m - 56320)),
                                          r3)
                               else None)
                        else None
                    | _ \<Rightarrow> None)
                 else if 56320 \<le> n \<and> n < 57344 then
                   (if 56448 \<le> n \<and> n < 56576 then Some ([char_of (n - 56320)], r')
                    else None)
                 else Some (utf8_bytes n, r'))
          else
            (case unescape e of
               Some ch \<Rightarrow> Some ([ch], r)
             | None \<Rightarrow> None))"

lemma scan_hex4_shorter: "scan_hex4 s = Some (n, rest) \<Longrightarrow> length rest < length s"
  by (auto simp: scan_hex4_def split: list.splits)

lemma scan_escape_shorter: "scan_escape s = Some (bytes, rest) \<Longrightarrow> length rest < length s"
  by (auto simp: scan_escape_def split: list.splits if_splits option.splits
      dest!: scan_hex4_shorter)

text \<open>The bytes of a string after its opening quote, and the text after the closing one.\<close>

function scanstring :: "string \<Rightarrow> (string \<times> string) option" where
  "scanstring [] = None"
| "scanstring (c # cs) =
     (if c = CHR 0x22 then Some ([], cs)
      else if c = CHR 0x5C then
        (case scan_escape cs of
           None \<Rightarrow> None
         | Some (bytes, rest) \<Rightarrow> app_fst bytes (scanstring rest))
      else if 32 \<le> (of_char c :: nat) then app_fst [c] (scanstring cs)
      else None)"
  by pat_completeness auto

termination scanstring
  by (relation "measure length") (auto dest: scan_escape_shorter)

lemma scanstring_shorter: "scanstring s = Some (x, rest) \<Longrightarrow> length rest < length s"
proof (induction s arbitrary: x rest rule: scanstring.induct)
  case 1
  then show ?case by simp
next
  case (2 c cs)
  show ?case
  proof (cases "c = CHR 0x22")
    case True
    then show ?thesis using "2.prems" by auto
  next
    case nq: False
    show ?thesis
    proof (cases "c = CHR 0x5C")
      case True
      then obtain bytes r y where e: "scan_escape cs = Some (bytes, r)"
        and s: "scanstring r = Some (y, rest)"
        using "2.prems" nq by (auto simp: app_fst_def split: option.splits)
      have "length rest < length r"
        using "2.IH"(1) [OF nq True e refl s] .
      then show ?thesis
        using scan_escape_shorter [OF e] by simp
    next
      case False
      then obtain y where s: "scanstring cs = Some (y, rest)" and p: "32 \<le> (of_char c :: nat)"
        using "2.prems" nq by (auto simp: app_fst_def split: option.splits if_splits)
      then show ?thesis
        using "2.IH"(2) [OF nq False p s] by simp
    qed
  qed
qed

lemma skip_ws_length: "length (skip_ws s) \<le> length s"
  by (simp add: skip_ws_def length_dropWhile_le)

text \<open>The elements of a non-empty array, from the opening quote of the first one.\<close>

function parse_array :: "string \<Rightarrow> string list option" where
  "parse_array s =
     (case s of
        [] \<Rightarrow> None
      | c # cs \<Rightarrow>
          if c = CHR 0x22 then
            (case scanstring cs of
               None \<Rightarrow> None
             | Some (x, rest) \<Rightarrow>
                 (case skip_ws rest of
                    [] \<Rightarrow> None
                  | d # ds \<Rightarrow>
                      if d = CHR '','' then map_option (Cons x) (parse_array (skip_ws ds))
                      else if d = CHR '']'' then (if skip_ws ds = [] then Some [x] else None)
                      else None))
          else None)"
  by pat_completeness auto

termination parse_array
proof (relation "measure length", goal_cases)
  case 1
  show ?case by simp
next
  case (2 s c cs p x rest d ds)
  then have "length rest < length cs"
    using scanstring_shorter by metis
  moreover have "length (skip_ws rest) \<le> length rest"
    by (rule skip_ws_length)
  moreover have "length (skip_ws ds) \<le> length ds"
    by (rule skip_ws_length)
  ultimately show ?case using 2 by simp
qed

declare parse_array.simps [simp del]

definition json_loads :: "string \<Rightarrow> string list option" where
  "json_loads text =
     (case skip_ws text of
        [] \<Rightarrow> None
      | c # cs \<Rightarrow>
          if c = CHR ''['' then
            (case skip_ws cs of
               [] \<Rightarrow> None
             | d # ds \<Rightarrow>
                 if d = CHR '']'' then (if skip_ws ds = [] then Some [] else None)
                 else parse_array (d # ds))
          else None)"

subsection \<open>Integers as Redis stores them\<close>

text \<open>
  redis-py sends an \<^verbatim>\<open>int\<close> field value as its decimal \<^verbatim>\<open>repr\<close>; \<^verbatim>\<open>int(bytes)\<close> reads
  it back. \<^verbatim>\<open>int\<close> strips white space, takes one sign, and allows single underscores
  between digits; \<open>None\<close> is \<^verbatim>\<open>ValueError\<close>.
\<close>

fun decimal :: "nat \<Rightarrow> string" where
  "decimal n =
     (if n < 10 then [char_of (48 + n)]
      else decimal (n div 10) @ [char_of (48 + n mod 10)])"

declare decimal.simps [simp del]

definition int_repr :: "int \<Rightarrow> string" where
  "int_repr i = (if i < 0 then CHR ''-'' # decimal (nat (- i)) else decimal (nat i))"

definition is_digit :: "char \<Rightarrow> bool" where
  "is_digit c = (48 \<le> (of_char c :: nat) \<and> (of_char c :: nat) \<le> 57)"

definition is_space :: "char \<Rightarrow> bool" where
  "is_space c = (c = CHR '' '' \<or> (9 \<le> (of_char c :: nat) \<and> (of_char c :: nat) \<le> 13))"

definition strip :: "string \<Rightarrow> string" where
  "strip s = rev (dropWhile is_space (rev (dropWhile is_space s)))"

fun digits_value :: "nat \<Rightarrow> bool \<Rightarrow> string \<Rightarrow> nat option" where
  "digits_value acc prev_digit [] = (if prev_digit then Some acc else None)"
| "digits_value acc prev_digit (c # cs) =
     (if is_digit c then digits_value (acc * 10 + (of_char c - 48)) True cs
      else if c = CHR ''_'' \<and> prev_digit then digits_value acc False cs
      else None)"

definition py_int :: "string \<Rightarrow> int option" where
  "py_int s =
     (case strip s of
        [] \<Rightarrow> None
      | c # cs \<Rightarrow>
          if c = CHR ''-'' then map_option (\<lambda>n. - int n) (digits_value 0 False cs)
          else if c = CHR ''+'' then map_option int (digits_value 0 False cs)
          else map_option int (digits_value 0 False (c # cs)))"

subsection \<open>Redis: hashes, WATCH and MULTI/EXEC\<close>

text \<open>
  An order is one Redis hash under the key \<^verbatim>\<open>order:<order_id>\<close>; a hash keeps its
  fields in the order they were first set. The server is assumed reachable. WATCH is
  modelled with a modification counter per key: a write command bumps the counter of
  its key, WATCH remembers the counter it saw, and EXEC runs the queued commands only
  if every remembered counter is still current. That is Redis's rule that a write to a
  watched key by any client aborts the next EXEC of the watching connection.
\<close>

type_synonym hash = "(string \<times> string) list"

record redis =
  hashes :: "(string \<times> hash) list"
  versions :: "(string \<times> nat) list"

datatype command =
    EXISTS string
  | HGETALL string
  | HSET string string string
  | DEL string

datatype reply = IntReply nat | HashReply hash

datatype exn =
    WatchError
  | KeyError string
  | IndexError
  | TypeError
  | ValueError
  | JSONDecodeError
  | UnicodeDecodeError
  | ZeroDivisionError
  | RequestException
  | AttributeError
  | NoBrokersAvailable
  | KafkaTimeoutError

definition version_of :: "redis \<Rightarrow> string \<Rightarrow> nat" where
  "version_of r k = (case map_of (versions r) k of None \<Rightarrow> 0 | Some n \<Rightarrow> n)"

definition touch :: "string \<Rightarrow> redis \<Rightarrow> redis" where
  "touch k r = r\<lparr>versions := AList.update k (Suc (version_of r k)) (versions r)\<rparr>"

definition hgetall :: "redis \<Rightarrow> string \<Rightarrow> hash" where
  "hgetall r k = (case map_of (hashes r) k of None \<Rightarrow> [] | Some h \<Rightarrow> h)"

fun run_command :: "command \<Rightarrow> redis \<Rightarrow> reply \<times> redis" where
  "run_command (EXISTS k) r =
     (IntReply (if map_of (hashes r) k = None then 0 else 1), r)"
| "run_command (HGETALL k) r = (HashReply (hgetall r k), r)"
| "run_command (HSET k f v) r =
     (IntReply (if map_of (hgetall r k) f = None then 1 else 0),
      touch k (r\<lparr>hashes := AList.update k (AList.update f v (hgetall r k)) (hashes r)\<rparr>))"
| "run_command (DEL k) r =
     (if map_of (hashes r) k = None then (IntReply 0, r)
      else (IntReply 1, touch k (r\<lparr>hashes := AList.delete k (hashes r)\<rparr>)))"

fun run_commands :: "command list \<Rightarrow> redis \<Rightarrow> reply list \<times> redis" where
  "run_commands [] r = ([], r)"
| "run_commands (c # cs) r =
     (let (x, r) = run_command c r; (xs, r) = run_commands cs r in (x # xs, r))"

text \<open>
  The redis-py \<^verbatim>\<open>Pipeline\<close>. \<^verbatim>\<open>watch\<close> is sent at once; after \<^verbatim>\<open>multi\<close> the commands
  are queued; \<^verbatim>\<open>execute\<close> sends MULTI, the queue and EXEC, raises \<^verbatim>\<open>WatchError\<close> when
  EXEC was aborted, and in every case resets the pipeline: EXEC ends the watch on the
  server and \<^verbatim>\<open>execute\<close> calls \<^verbatim>\<open>reset()\<close> in its \<^verbatim>\<open>finally\<close>. The guards of \<^verbatim>\<open>watch\<close> and
  \<^verbatim>\<open>multi\<close> against a transaction already open are left out: the handlers call them
  on a new or reset pipeline only.
\<close>

record pipeline =
  watching :: bool
  explicit_transaction :: bool
  command_stack :: "command list"
  watched :: "(string \<times> nat) list"

definition new_pipeline :: pipeline where
  "new_pipeline =
     \<lparr>watching = False, explicit_transaction = False, command_stack = [], watched = []\<rparr>"

definition watch :: "string \<Rightarrow> redis \<Rightarrow> pipeline \<Rightarrow> pipeline" where
  "watch k r p = p\<lparr>watching := True, watched := watched p @ [(k, version_of r k)]\<rparr>"

definition multi :: "pipeline \<Rightarrow> pipeline" where
  "multi p = p\<lparr>explicit_transaction := True\<rparr>"

definition queue :: "command \<Rightarrow> pipeline \<Rightarrow> pipeline" where
  "queue c p = p\<lparr>command_stack := command_stack p @ [c]\<rparr>"

definition reset :: "pipeline \<Rightarrow> pipeline" where
  "reset p = new_pipeline"

definition unwatch :: "pipeline \<Rightarrow> pipeline" where
  "unwatch p = (if watching p then p\<lparr>watching := False, watched := []\<rparr> else p)"

definition execute :: "redis \<Rightarrow> pipeline \<Rightarrow> (exn + reply list) \<times> redis \<times> pipeline" where
  "execute r p =
     (if command_stack p = [] \<and> \<not> watching p then (Inr [], r, p)
      else if list_all (\<lambda>(k, v). version_of r k = v) (watched p) then
        (let (result, r) = run_commands (command_stack p) r in (Inr result, r, reset p))
      else (Inl WatchError, r, reset p))"

subsection \<open>The stock service's price\<close>

text \<open>
  What \<^verbatim>\<open>requests.get\<close> gives \<^verbatim>\<open>get_item_price\<close>: no connection, or a status code and
  the integer under \<^verbatim>\<open>"price"\<close> in the body when the body has one.
\<close>

datatype stock_response = ConnectionFailed | Response nat "int option"

definition get_item_price :: "stock_response \<Rightarrow> exn + int option" where
  "get_item_price response =
     (case response of
        ConnectionFailed \<Rightarrow> Inl RequestException
      | Response status_code price \<Rightarrow>
          if status_code = 200 then
            (case price of None \<Rightarrow> Inl (KeyError ''price'') | Some p \<Rightarrow> Inr (Some p))
          else Inr None)"

subsection \<open>Responses\<close>

text \<open>
  A handler returns a body and a status code. The body is \<^verbatim>\<open>jsonify\<close> of a value, or
  the text of a caught exception (\<^verbatim>\<open>str(e)\<close>; \<^verbatim>\<open>add_item\<close> wraps it in a dict first).
\<close>

datatype body = Jsonify json | Text exn | TextDict exn

type_synonym response = "body \<times> nat"

definition error_body :: "string \<Rightarrow> body" where
  "error_body msg = Jsonify (JObj [(''error'', JStr msg)])"

definition success_body :: body where
  "success_body = Jsonify (JObj [(''status'', JStr ''success'')])"

subsection \<open>Reading a reply the way the handlers do\<close>

definition truthy :: "reply \<Rightarrow> bool" where
  "truthy x = (case x of IntReply n \<Rightarrow> n \<noteq> 0 | HashReply h \<Rightarrow> h \<noteq> [])"

definition getitem :: "reply \<Rightarrow> string \<Rightarrow> exn + string" where
  "getitem order_data field =
     (case order_data of
        IntReply n \<Rightarrow> Inl TypeError
      | HashReply h \<Rightarrow>
          (case map_of h field of None \<Rightarrow> Inl (KeyError field) | Some v \<Rightarrow> Inr v))"

text \<open>\<^verbatim>\<open>bytes.decode()\<close>: the \<^verbatim>\<open>str\<close> of bytes that are UTF-8.\<close>

definition decode :: "string \<Rightarrow> exn + string" where
  "decode b = (if utf8 b then Inr b else Inl UnicodeDecodeError)"

text \<open>\<^verbatim>\<open>json.loads(order_data[b"items"].decode())\<close>\<close>

definition load_items :: "reply \<Rightarrow> exn + string list" where
  "load_items order_data =
     (case getitem order_data ''items'' of
        Inl e \<Rightarrow> Inl e
      | Inr value \<Rightarrow>
          (case decode value of
             Inl e \<Rightarrow> Inl e
           | Inr text \<Rightarrow>
               (case json_loads text of
                  None \<Rightarrow> Inl JSONDecodeError
                | Some items \<Rightarrow> Inr items)))"

text \<open>\<^verbatim>\<open>int(order_data[b"total_cost"])\<close>\<close>

definition load_total_cost :: "reply \<Rightarrow> exn + int" where
  "load_total_cost order_data =
     (case getitem order_data ''total_cost'' of
        Inl e \<Rightarrow> Inl e
      | Inr text \<Rightarrow> (case py_int text of None \<Rightarrow> Inl ValueError | Some n \<Rightarrow> Inr n))"

subsection \<open>create and remove\<close>

text \<open>\<^verbatim>\<open>order_id\<close> is the \<^verbatim>\<open>str(uuid.uuid4())\<close> the call drew.\<close>

definition create_order :: "redis \<Rightarrow> string \<Rightarrow> string \<Rightarrow> response \<times> redis" where
  "create_order r order_id user_id =
     (let pipe = new_pipeline;
          key = ''order:'' @ order_id;
          items = [];
          pipe = multi pipe;
          pipe = queue (HSET key ''order_id'' order_id) pipe;
          pipe = queue (HSET key ''paid'' ''False'') pipe;
          pipe = queue (HSET key ''items'' (json_dumps items)) pipe;
          pipe = queue (HSET key ''user_id'' user_id) pipe;
          pipe = queue (HSET key ''total_cost'' (int_repr 0)) pipe;
          (result, r, pipe) = execute r pipe;
          pipe = reset pipe
      in case result of
           Inl e \<Rightarrow> ((Text e, 500), r)
         | Inr _ \<Rightarrow> ((Jsonify (JObj [(''order_id'', JStr order_id)]), 200), r))"

definition remove_order :: "redis \<Rightarrow> string \<Rightarrow> response \<times> redis" where
  "remove_order r order_id =
     (let pipe = new_pipeline;
          pipe = queue (DEL (''order:'' @ order_id)) pipe;
          (result, r, pipe) = execute r pipe;
          pipe = reset pipe
      in case result of
           Inl e \<Rightarrow> ((Text e, 500), r)
         | Inr [] \<Rightarrow> ((Text IndexError, 500), r)
         | Inr (n # _) \<Rightarrow>
             if n = IntReply 0 then ((error_body ''Order not found'', 400), r)
             else ((success_body, 200), r))"

subsection \<open>addItem\<close>

text \<open>
  The handler makes two round trips to Redis with the call to the stock service
  between them. \<open>add_item_read\<close> is lines 130--136 (WATCH, then MULTI / EXISTS /
  HGETALL / EXEC); \<open>add_item_write\<close> is lines 139--154, from the checks on the result
  to the second \<^verbatim>\<open>execute\<close>. Other requests can run between the two.
\<close>

definition add_item_read :: "redis \<Rightarrow> string \<Rightarrow> (exn + reply list) \<times> redis \<times> pipeline" where
  "add_item_read r order_key =
     (let pipe = new_pipeline;
          pipe = watch order_key r pipe;
          pipe = multi pipe;
          pipe = queue (EXISTS order_key) pipe;
          pipe = queue (HGETALL order_key) pipe
      in execute r pipe)"

definition add_item_write ::
  "redis \<Rightarrow> pipeline \<Rightarrow> string \<Rightarrow> reply list \<Rightarrow> string \<Rightarrow> stock_response \<Rightarrow>
   (exn + response) \<times> redis \<times> pipeline" where
  "add_item_write r pipe order_key result item_id stock =
     (case result of
        [] \<Rightarrow> (Inr (error_body ''Result Error In Pipe Execution'', 400), r, pipe)
      | exists # rest \<Rightarrow>
          if \<not> truthy exists
          then (Inr (error_body ''The order_key does not exist'', 400), r, pipe)
          else
            (case rest of
               [] \<Rightarrow> (Inl IndexError, r, pipe)
             | order_data # _ \<Rightarrow>
                 (case get_item_price stock of
                    Inl e \<Rightarrow> (Inl e, r, pipe)
                  | Inr None \<Rightarrow> (Inr (error_body ''Item not found'', 400), r, pipe)
                  | Inr (Some item_price) \<Rightarrow>
                      (case load_items order_data of
                         Inl e \<Rightarrow> (Inl e, r, pipe)
                       | Inr items \<Rightarrow>
                           (case load_total_cost order_data of
                              Inl e \<Rightarrow> (Inl e, r, pipe)
                            | Inr cost \<Rightarrow>
                                (let items = items @ [item_id];
                                     total_cost = cost + item_price;
                                     pipe = multi pipe;
                                     pipe = queue (HSET order_key ''items'' (json_dumps items)) pipe;
                                     pipe = queue (HSET order_key ''total_cost''
                                                     (int_repr total_cost)) pipe;
                                     (committed, r, pipe) = execute r pipe
                                 in case committed of
                                      Inl e \<Rightarrow> (Inl e, r, pipe)
                                    | Inr _ \<Rightarrow> (Inr (success_body, 200), r, pipe)))))))"

definition add_item :: "redis \<Rightarrow> string \<Rightarrow> string \<Rightarrow> stock_response \<Rightarrow> response \<times> redis" where
  "add_item r order_id item_id stock =
     (let order_key = ''order:'' @ order_id;
          (result, r, pipe) = add_item_read r order_key;
          (outcome, r, pipe) =
            (case result of
               Inl e \<Rightarrow> (Inl e, r, pipe)
             | Inr result \<Rightarrow> add_item_write r pipe order_key result item_id stock);
          pipe = unwatch pipe
      in case outcome of
           Inl e \<Rightarrow> ((TextDict e, 500), r)
         | Inr response \<Rightarrow> (response, r))"

text \<open>
  The same handler with another request served by Redis between its two round trips,
  while it waits for the stock service: \<open>other\<close> is what that request does to the
  state.
\<close>

definition add_item_meanwhile ::
  "(redis \<Rightarrow> redis) \<Rightarrow> redis \<Rightarrow> string \<Rightarrow> string \<Rightarrow> stock_response \<Rightarrow> response \<times> redis" where
  "add_item_meanwhile other r order_id item_id stock =
     (let order_key = ''order:'' @ order_id;
          (result, r, pipe) = add_item_read r order_key;
          r = other r;
          (outcome, r, pipe) =
            (case result of
               Inl e \<Rightarrow> (Inl e, r, pipe)
             | Inr result \<Rightarrow> add_item_write r pipe order_key result item_id stock);
          pipe = unwatch pipe
      in case outcome of
           Inl e \<Rightarrow> ((TextDict e, 500), r)
         | Inr response \<Rightarrow> (response, r))"

subsection \<open>removeItem\<close>

text \<open>
  The same two round trips: \<open>remove_item_read\<close> is lines 165--170,
  \<open>remove_item_write\<close> lines 172--188.
\<close>

definition remove_item_read :: "redis \<Rightarrow> string \<Rightarrow> (exn + reply list) \<times> redis \<times> pipeline" where
  "remove_item_read r order_key =
     (let pipe = new_pipeline;
          pipe = watch order_key r pipe;
          pipe = multi pipe;
          pipe = queue (HGETALL order_key) pipe
      in execute r pipe)"

definition remove_item_write ::
  "redis \<Rightarrow> pipeline \<Rightarrow> string \<Rightarrow> reply list \<Rightarrow> string \<Rightarrow> stock_response \<Rightarrow>
   (exn + response) \<times> redis \<times> pipeline" where
  "remove_item_write r pipe order_key result item_id stock =
     (case result of
        [] \<Rightarrow> (Inl IndexError, r, pipe)
      | order_data # _ \<Rightarrow>
          if \<not> truthy order_data
          then (Inr (error_body ''Order not found'', 400), r, pipe)
          else
            (case get_item_price stock of
               Inl e \<Rightarrow> (Inl e, r, pipe)
             | Inr None \<Rightarrow> (Inr (error_body ''Item not found'', 400), r, pipe)
             | Inr (Some item_price) \<Rightarrow>
                 (case load_items order_data of
                    Inl e \<Rightarrow> (Inl e, r, pipe)
                  | Inr items \<Rightarrow>
                      if item_id \<notin> set items
                      then (Inr (error_body ''Item not in order'', 400), r, pipe)
                      else
                        (case load_total_cost order_data of
                           Inl e \<Rightarrow> (Inl e, r, pipe)
                         | Inr cost \<Rightarrow>
                             (let items = remove1 item_id items;
                                  total_cost = cost - item_price;
                                  pipe = multi pipe;
                                  pipe = queue (HSET order_key ''items'' (json_dumps items)) pipe;
                                  pipe = queue (HSET order_key ''total_cost''
                                                  (int_repr total_cost)) pipe;
                                  (committed, r, pipe) = execute r pipe
                              in case committed of
                                   Inl e \<Rightarrow> (Inl e, r, pipe)
                                 | Inr _ \<Rightarrow> (Inr (success_body, 200), r, pipe))))))"

definition remove_item :: "redis \<Rightarrow> string \<Rightarrow> string \<Rightarrow> stock_response \<Rightarrow> response \<times> redis" where
  "remove_item r order_id item_id stock =
     (let order_key = ''order:'' @ order_id;
          (result, r, pipe) = remove_item_read r order_key;
          (outcome, r, pipe) =
            (case result of
               Inl e \<Rightarrow> (Inl e, r, pipe)
             | Inr result \<Rightarrow> remove_item_write r pipe order_key result item_id stock);
          pipe = unwatch pipe
      in case outcome of
           Inl e \<Rightarrow> ((Text e, 500), r)
         | Inr response \<Rightarrow> (response, r))"

subsection \<open>find\<close>

text \<open>
  The dict comprehension of lines 207--212: every key and every value is decoded, and
  only the value of \<^verbatim>\<open>items\<close> is parsed.
\<close>

fun decode_fields :: "hash \<Rightarrow> exn + (string \<times> json) list" where
  "decode_fields [] = Inr []"
| "decode_fields ((key, value) # rest) =
     (case decode key of
        Inl e \<Rightarrow> Inl e
      | Inr name \<Rightarrow>
          (case decode value of
             Inl e \<Rightarrow> Inl e
           | Inr text \<Rightarrow>
               (case (if key \<noteq> ''items'' then Inr (JStr text)
                      else (case json_loads text of
                              None \<Rightarrow> Inl JSONDecodeError
                            | Some xs \<Rightarrow> Inr (JArr (map JStr xs)))) of
                  Inl e \<Rightarrow> Inl e
                | Inr v \<Rightarrow>
                    (case decode_fields rest of
                       Inl e \<Rightarrow> Inl e
                     | Inr order \<Rightarrow> Inr ((name, v) # order)))))"

definition find_order :: "redis \<Rightarrow> string \<Rightarrow> response \<times> redis" where
  "find_order r order_id =
     (let order_key = ''order:'' @ order_id;
          pipe = new_pipeline;
          pipe = watch order_key r pipe;
          pipe = multi pipe;
          pipe = queue (HGETALL order_key) pipe;
          (result, r, pipe) = execute r pipe;
          outcome =
            (case result of
               Inl e \<Rightarrow> Inl e
             | Inr [] \<Rightarrow> Inl IndexError
             | Inr (order_data # _) \<Rightarrow>
                 if \<not> truthy order_data then Inr (error_body ''Order not found'', 400)
                 else
                   (case order_data of
                      IntReply n \<Rightarrow> Inl TypeError
                    | HashReply h \<Rightarrow>
                        (case decode_fields h of
                           Inl e \<Rightarrow> Inl e
                         | Inr order \<Rightarrow> Inr (Jsonify (JObj order), 200))));
          pipe = unwatch pipe
      in case outcome of
           Inl e \<Rightarrow> ((Text e, 500), r)
         | Inr response \<Rightarrow> (response, r))"

subsection \<open>The partitioner's hash\<close>

text \<open>
  \<^verbatim>\<open>murmur2\<close> of \<^verbatim>\<open>kafka.partitioner.default\<close>, the pure-Python port of the Java
  client's hash. The source masks with \<^verbatim>\<open>0xffffffff\<close> after every step; a 32-bit word
  does that by itself. \<^verbatim>\<open>length & ~3\<close> is \<open>length4 * 4\<close>.
\<close>

type_synonym byte = "8 word"
type_synonym u32 = "32 word"

text \<open>\<^verbatim>\<open>str.encode("utf-8")\<close>: the bytes of the \<^verbatim>\<open>str\<close>, as the hash takes them.\<close>

definition encode_utf8 :: "string \<Rightarrow> byte list" where
  "encode_utf8 s = map (\<lambda>c. of_nat (of_char c)) s"

definition murmur2 :: "byte list \<Rightarrow> u32" where
  "murmur2 data =
     (let len = length data;
          seed = (0x9747b28c :: u32);
          m = (0x5bd1e995 :: u32);
          r = (24 :: nat);
          h = seed XOR of_nat len;
          length4 = len div 4;
          h = fold (\<lambda>i h.
                let i4 = i * 4;
                    k = (ucast (data ! (i4 + 0)) :: u32)
                      + push_bit 8 (ucast (data ! (i4 + 1)))
                      + push_bit 16 (ucast (data ! (i4 + 2)))
                      + push_bit 24 (ucast (data ! (i4 + 3)));
                    k = k * m;
                    k = k XOR drop_bit r k;
                    k = k * m;
                    h = h * m;
                    h = h XOR k
                in h) [0..<length4] h;
          extra_bytes = len mod 4;
          h = (if extra_bytes \<ge> 3
               then h XOR push_bit 16 (ucast (data ! (length4 * 4 + 2))) else h);
          h = (if extra_bytes \<ge> 2
               then h XOR push_bit 8 (ucast (data ! (length4 * 4 + 1))) else h);
          h = (if extra_bytes \<ge> 1
               then (h XOR ucast (data ! (length4 * 4))) * m else h);
          h = h XOR drop_bit 13 h;
          h = h * m;
          h = h XOR drop_bit 15 h
      in h)"

text \<open>
  kafka-python's \<^verbatim>\<open>DefaultPartitioner\<close> for a key that is not \<^verbatim>\<open>None\<close>, on a topic
  whose partitions are \<open>0..<n\<close>.
\<close>

definition default_partitioner :: "byte list \<Rightarrow> nat \<Rightarrow> nat" where
  "default_partitioner key n = nat (uint (murmur2 key AND 0x7fffffff) mod int n)"

text \<open>
  The \<^verbatim>\<open>producer\<close> of lines 220--224 serialises a key with
  \<^verbatim>\<open>json.dumps(v).encode("utf-8")\<close>, and \<^verbatim>\<open>send\<close> gives the partitioner those bytes.
\<close>

definition key_serializer :: "string \<Rightarrow> byte list" where
  "key_serializer v = encode_utf8 (json_dumps_str v)"

definition producer_partition :: "string \<Rightarrow> nat \<Rightarrow> nat" where
  "producer_partition key n = default_partitioner (key_serializer key) n"

text \<open>Lines 266--269 of \<^verbatim>\<open>checkout\<close>, with \<open>n\<close> the number of partitions of the results topic.\<close>

definition partitionIndex :: "string \<Rightarrow> nat \<Rightarrow> nat" where
  "partitionIndex global_transaction_id n =
     nat (uint (murmur2 (encode_utf8 global_transaction_id) AND 0x7fffffff) mod int n)"

subsection \<open>checkout\<close>

text \<open>
  What Kafka does during one call: whether the brokers answer the new consumer, the
  number of partitions of \<^verbatim>\<open>order_result_topic\<close> (\<open>None\<close> when the topic is not known),
  the topics on which \<^verbatim>\<open>producer.send\<close> raises, and the records the consumer's iterator
  finds on the assigned partition. A record carries the time it is handed over, in
  milliseconds from line 288, and its deserialised key and value (an object's fields
  have distinct names); \<open>Undecodable\<close> is a record on which a deserialiser raises.
\<close>

datatype delivery = Delivery nat json json | Undecodable nat

fun arrival :: "delivery \<Rightarrow> nat" where
  "arrival (Delivery t key msg) = t"
| "arrival (Undecodable t) = t"

record kafka =
  brokers_available :: bool
  partitions_for_topic :: "nat option"
  send_fails :: "string list"
  messages :: "delivery list"

text \<open>The calls checkout makes on the consumer, the producer and the pipeline, in order.\<close>

datatype event =
    ConsumerCreated
  | ConsumerAssigned string nat
  | ConsumerClosed
  | ProducerSend string string json
  | PipeUnwatch

text \<open>
  The loop of lines 289--300. With \<^verbatim>\<open>consumer_timeout_ms=10000\<close> the iterator stops when
  a call of \<^verbatim>\<open>next\<close> has waited ten seconds; \<open>now\<close> is the time of that call. The
  test of line 297 reads the clock when the record has been handed over.
\<close>

fun reply_loop :: "string \<Rightarrow> nat \<Rightarrow> delivery list \<Rightarrow> exn + response" where
  "reply_loop global_transaction_id now [] = Inr (error_body ''Wait too long, quit'', 400)"
| "reply_loop global_transaction_id now (d # ds) =
     (if arrival d - now \<ge> 10000 then Inr (error_body ''Wait too long, quit'', 400)
      else
        (case d of
           Undecodable t \<Rightarrow> Inl JSONDecodeError
         | Delivery t key msg \<Rightarrow>
             if key = JStr global_transaction_id then
               (case msg of
                  JObj members \<Rightarrow>
                    (case map_of members ''status'' of
                       None \<Rightarrow> Inl (KeyError ''status'')
                     | Some status \<Rightarrow>
                         if status = JStr ''success'' then Inr (success_body, 200)
                         else Inr (error_body ''Payment failed'', 400))
                | _ \<Rightarrow> Inl TypeError)
             else if t > 10000 then Inr (error_body ''Wait too long, quit'', 400)
             else reply_loop global_transaction_id t ds))"

text \<open>Lines 308--312: every key and every value of the reply is decoded.\<close>

fun byte_keys_to_str :: "hash \<Rightarrow> exn + hash" where
  "byte_keys_to_str [] = Inr []"
| "byte_keys_to_str ((k, v) # rest) =
     (case decode k of
        Inl e \<Rightarrow> Inl e
      | Inr k' \<Rightarrow>
          (case decode v of
             Inl e \<Rightarrow> Inl e
           | Inr v' \<Rightarrow>
               (case byte_keys_to_str rest of
                  Inl e \<Rightarrow> Inl e
                | Inr dictionary \<Rightarrow> Inr ((k', v') # dictionary))))"

text \<open>\<^verbatim>\<open>order_data\<close> after line 252 has put the parsed list under \<^verbatim>\<open>"items"\<close>.\<close>

definition with_items :: "hash \<Rightarrow> string list \<Rightarrow> (string \<times> json) list" where
  "with_items order_data list_data =
     map (\<lambda>(k, v). (k, if k = ''items'' then JArr (map JStr list_data) else JStr v)) order_data"

text \<open>Lines 254--300: the consumer, the partition, the two sends and the wait.\<close>

definition checkout_saga ::
  "string \<Rightarrow> kafka \<Rightarrow> string list \<Rightarrow> (string \<times> json) list \<Rightarrow> (exn + response) \<times> event list" where
  "checkout_saga global_transaction_id k list_data order_data =
     (if \<not> brokers_available k then (Inl NoBrokersAvailable, [])
      else
        (let trace = [ConsumerCreated] in
         case partitions_for_topic k of
           None \<Rightarrow> (Inl TypeError, trace)
         | Some n \<Rightarrow>
             if n = 0 then (Inl ZeroDivisionError, trace)
             else
               (let trace = trace @ [ConsumerAssigned ''order_result_topic''
                                       (partitionIndex global_transaction_id n)]
                in if ''stock_check_topic'' \<in> set (send_fails k)
                   then (Inl KafkaTimeoutError, trace)
                   else
                     (let trace = trace @
                            [ProducerSend ''stock_check_topic'' global_transaction_id
                               (JObj [(''affected_items'', JArr (map JStr list_data)),
                                      (''action'', JStr ''remove''),
                                      (''is_roll_back'', JStr ''false'')])]
                      in if ''payment_processing_topic'' \<in> set (send_fails k)
                         then (Inl KafkaTimeoutError, trace)
                         else
                           (let trace = trace @
                                  [ProducerSend ''payment_processing_topic''
                                     global_transaction_id
                                     (JObj [(''order_data'', JObj order_data),
                                            (''action'', JStr ''pay''),
                                            (''is_roll_back'', JStr ''false'')])]
                            in (reply_loop global_transaction_id 0 (messages k), trace))))))"

text \<open>
  The handler. \<^verbatim>\<open>global_transaction_id\<close> is the \<^verbatim>\<open>str(uuid.uuid4())\<close> the call drew. The
  \<^verbatim>\<open>finally\<close> of line 304 is the last event of every trace.
\<close>

definition checkout :: "redis \<Rightarrow> string \<Rightarrow> string \<Rightarrow> kafka \<Rightarrow> response \<times> event list" where
  "checkout r order_id global_transaction_id k =
     (let order_key = ''order:'' @ order_id;
          pipe = new_pipeline;
          pipe = watch order_key r pipe;
          pipe = multi pipe;
          pipe = queue (HGETALL order_key) pipe;
          (result, r, pipe) = execute r pipe;
          (outcome, trace) =
            (case result of
               Inl e \<Rightarrow> (Inl e, [])
             | Inr [] \<Rightarrow> (Inl IndexError, [])
             | Inr (IntReply n # _) \<Rightarrow> (Inl AttributeError, [])
             | Inr (HashReply h # _) \<Rightarrow>
                 (case byte_keys_to_str h of
                    Inl e \<Rightarrow> (Inl e, [])
                  | Inr order_data \<Rightarrow>
                      if order_data = [] then (Inr (error_body ''Order not found'', 400), [])
                      else
                        (case map_of order_data ''items'' of
                           None \<Rightarrow> (Inl (KeyError ''items''), [])
                         | Some items \<Rightarrow>
                             (case json_loads items of
                                None \<Rightarrow> (Inl JSONDecodeError, [])
                              | Some list_data \<Rightarrow>
                                  checkout_saga global_transaction_id k list_data
                                    (with_items order_data list_data)))));
          pipe = unwatch pipe;
          trace = trace @ [PipeUnwatch]
      in case outcome of
           Inl e \<Rightarrow> ((Text e, 500), trace)
         | Inr response \<Rightarrow> (response, trace))"

subsection \<open>Sequences of calls on one order\<close>

text \<open>
  A call of \<^verbatim>\<open>addItem\<close> or \<^verbatim>\<open>removeItem\<close> comes with the answer the stock service gives
  during that call, so the price of an item may differ from one call to the next.
\<close>

datatype op = AddItem string | RemoveItem string

type_synonym call = "op \<times> stock_response"

fun call_handler :: "redis \<Rightarrow> string \<Rightarrow> call \<Rightarrow> response \<times> redis" where
  "call_handler r order_id (AddItem item_id, stock) = add_item r order_id item_id stock"
| "call_handler r order_id (RemoveItem item_id, stock) = remove_item r order_id item_id stock"

fun run_calls :: "redis \<Rightarrow> string \<Rightarrow> call list \<Rightarrow> redis" where
  "run_calls r order_id [] = r"
| "run_calls r order_id (c # cs) = run_calls (snd (call_handler r order_id c)) order_id cs"

text \<open>What a handler reads from the two fields of the record.\<close>

definition stored_items :: "redis \<Rightarrow> string \<Rightarrow> string list option" where
  "stored_items r order_id =
     (case map_of (hgetall r (''order:'' @ order_id)) ''items'' of
        None \<Rightarrow> None
      | Some value \<Rightarrow> (case decode value of Inl e \<Rightarrow> None | Inr text \<Rightarrow> json_loads text))"

definition stored_total_cost :: "redis \<Rightarrow> string \<Rightarrow> int option" where
  "stored_total_cost r order_id =
     (case map_of (hgetall r (''order:'' @ order_id)) ''total_cost'' of
        None \<Rightarrow> None
      | Some text \<Rightarrow> py_int text)"

text \<open>
  The entries of \<^verbatim>\<open>items\<close> as the specification counts them, each with the price it
  had when it was inserted: a completed \<^verbatim>\<open>addItem\<close> (status 200) appends the item with
  the price of that call, a completed \<^verbatim>\<open>removeItem\<close> takes the first entry of the item
  away.
\<close>

definition quoted_price :: "stock_response \<Rightarrow> int" where
  "quoted_price stock = (case get_item_price stock of Inr (Some p) \<Rightarrow> p | _ \<Rightarrow> 0)"

fun remove_first :: "string \<Rightarrow> (string \<times> int) list \<Rightarrow> (string \<times> int) list" where
  "remove_first item_id [] = []"
| "remove_first item_id ((i, p) # entries) =
     (if i = item_id then entries else (i, p) # remove_first item_id entries)"

fun spec_entries ::
  "redis \<Rightarrow> string \<Rightarrow> (string \<times> int) list \<Rightarrow> call list \<Rightarrow> (string \<times> int) list" where
  "spec_entries r order_id entries [] = entries"
| "spec_entries r order_id entries ((opn, stock) # cs) =
     (let (response, r') = call_handler r order_id (opn, stock);
          entries' =
            (if snd response \<noteq> 200 then entries
             else (case opn of
                     AddItem item_id \<Rightarrow> entries @ [(item_id, quoted_price stock)]
                   | RemoveItem item_id \<Rightarrow> remove_first item_id entries))
      in spec_entries r' order_id entries' cs)"

text \<open>
  Every \<^verbatim>\<open>removeItem\<close> of the sequence that completes is quoted the price at which the
  entry it removes, the first one of the item, was inserted.
\<close>

fun removals_at_insertion_price ::
  "redis \<Rightarrow> string \<Rightarrow> (string \<times> int) list \<Rightarrow> call list \<Rightarrow> bool" where
  "removals_at_insertion_price r order_id entries [] = True"
| "removals_at_insertion_price r order_id entries ((opn, stock) # cs) =
     (let (response, r') = call_handler r order_id (opn, stock)
      in (case opn of
            AddItem item_id \<Rightarrow> True
          | RemoveItem item_id \<Rightarrow>
              snd response \<noteq> 200 \<or> map_of entries item_id = Some (quoted_price stock)) \<and>
         removals_at_insertion_price r' order_id
           (spec_entries r order_id entries [(opn, stock)]) cs)"

text \<open>
  The two fields after a sequence of calls, as the answers of the stock service alone
  give them: \<^verbatim>\<open>addItem\<close> with a price appends the item and adds the price;
  \<^verbatim>\<open>removeItem\<close> with a price, of an item that is in the list, removes its first
  occurrence and subtracts the price; every other call changes nothing.
\<close>

fun fields_after :: "string list \<times> int \<Rightarrow> call list \<Rightarrow> string list \<times> int" where
  "fields_after values [] = values"
| "fields_after (items, total_cost) ((AddItem item_id, stock) # cs) =
     fields_after
       (case get_item_price stock of
          Inr (Some item_price) \<Rightarrow> (items @ [item_id], total_cost + item_price)
        | _ \<Rightarrow> (items, total_cost)) cs"
| "fields_after (items, total_cost) ((RemoveItem item_id, stock) # cs) =
     fields_after
       (case get_item_price stock of
          Inr (Some item_price) \<Rightarrow>
            if item_id \<in> set items then (remove1 item_id items, total_cost - item_price)
            else (items, total_cost)
        | _ \<Rightarrow> (items, total_cost)) cs"

definition empty_redis :: redis where
  "empty_redis = \<lparr>hashes = [], versions = []\<rparr>"

section \<open>Properties\<close>

subsection \<open>UTF-8\<close>

lemma continuation_low:
  assumes "continuation c"
  shows "(of_char c :: nat) - 128 < 64" and "char_of (128 + ((of_char c :: nat) - 128)) = c"
proof -
  have b: "128 \<le> (of_char c :: nat)" "(of_char c :: nat) < 192"
    using assms by (simp_all add: continuation_def)
  then show "(of_char c :: nat) - 128 < 64"
    by linarith
  have "128 + ((of_char c :: nat) - 128) = of_char c"
    using b by linarith
  then show "char_of (128 + ((of_char c :: nat) - 128)) = c"
    by simp
qed

lemma div_mod_64:
  fixes a x :: nat
  assumes "x < 64"
  shows "(a * 64 + x) div 64 = a" and "(a * 64 + x) mod 64 = x"
  using assms by simp_all

lemma utf8_next_bytes:
  assumes "utf8_next s = Some (cp, rest)"
  shows "utf8_bytes cp @ rest = s" and "cp < 55296 \<or> 57344 \<le> cp" and "cp < 1114112"
proof -
  obtain c0 s1 where s: "s = c0 # s1"
    using assms by (cases s) (simp_all add: utf8_next_def)
  define b0 where "b0 = (of_char c0 :: nat)"
  have c0: "char_of b0 = c0"
    by (simp add: b0_def)
  have nxt: "utf8_next s =
     (if b0 < 128 then Some (b0, s1)
      else if 194 \<le> b0 \<and> b0 < 224 then
        (case s1 of
           c1 # s2 \<Rightarrow>
             if continuation c1
             then Some ((b0 - 192) * 64 + (of_char c1 - 128), s2)
             else None
         | _ \<Rightarrow> None)
      else if 224 \<le> b0 \<and> b0 < 240 then
        (case s1 of
           c1 # c2 # s3 \<Rightarrow>
             (let cp = (b0 - 224) * 4096 + (of_char c1 - 128) * 64 + (of_char c2 - 128)
              in if continuation c1 \<and> continuation c2 \<and> 2048 \<le> cp \<and>
                    \<not> (55296 \<le> cp \<and> cp < 57344)
                 then Some (cp, s3) else None)
         | _ \<Rightarrow> None)
      else if 240 \<le> b0 \<and> b0 < 245 then
        (case s1 of
           c1 # c2 # c3 # s4 \<Rightarrow>
             (let cp = (b0 - 240) * 262144 + (of_char c1 - 128) * 4096
                       + (of_char c2 - 128) * 64 + (of_char c3 - 128)
              in if continuation c1 \<and> continuation c2 \<and> continuation c3 \<and>
                    65536 \<le> cp \<and> cp < 1114112
                 then Some (cp, s4) else None)
         | _ \<Rightarrow> None)
      else None)"
    unfolding s utf8_next_def b0_def Let_def list.case by (rule refl)
  note assms = assms [unfolded nxt]
  consider (one) "b0 < 128" | (two) "194 \<le> b0" "b0 < 224" | (three) "224 \<le> b0" "b0 < 240"
    | (four) "240 \<le> b0" "b0 < 245"
    using assms by (simp split: if_splits)
  then have "utf8_bytes cp @ rest = s \<and> (cp < 55296 \<or> 57344 \<le> cp) \<and> cp < 1114112"
  proof cases
    case one
    then show ?thesis
      using assms c0 by (auto simp: utf8_bytes_def s)
  next
    case two
    then obtain c1 where s1: "s1 = c1 # rest" and k: "continuation c1"
      and cp: "cp = (b0 - 192) * 64 + (of_char c1 - 128)"
      using assms by (auto simp: Let_def split: list.splits if_splits)
    define x1 where "x1 = (of_char c1 :: nat) - 128"
    have x1: "x1 < 64" "char_of (128 + x1) = c1"
      using k unfolding x1_def by (simp_all add: continuation_low)
    have a: "192 + (b0 - 192) = b0" "1 < b0 - 192" "b0 - 192 < 32"
      using two by simp_all
    have "cp div 64 = b0 - 192" "cp mod 64 = x1" "128 \<le> cp" "cp < 2048"
      using x1(1) a unfolding cp x1_def [symmetric] by simp_all
    then show ?thesis
      using x1 a c0 by (simp add: utf8_bytes_def s s1)
  next
    case three
    then obtain c1 c2 where s1: "s1 = c1 # c2 # rest" and k: "continuation c1" "continuation c2"
      and cp: "cp = (b0 - 224) * 4096 + (of_char c1 - 128) * 64 + (of_char c2 - 128)"
      and r: "2048 \<le> cp" "\<not> (55296 \<le> cp \<and> cp < 57344)"
      using assms by (auto simp: Let_def split: list.splits if_splits)
    define x1 where "x1 = (of_char c1 :: nat) - 128"
    define x2 where "x2 = (of_char c2 :: nat) - 128"
    have x: "x1 < 64" "char_of (128 + x1) = c1" "x2 < 64" "char_of (128 + x2) = c2"
      using k unfolding x1_def x2_def by (simp_all add: continuation_low)
    have a: "224 + (b0 - 224) = b0" "b0 - 224 < 16"
      using three by simp_all
    have e: "cp = ((b0 - 224) * 64 + x1) * 64 + x2"
      unfolding cp x1_def x2_def by simp
    have d: "cp div 64 = (b0 - 224) * 64 + x1" "cp mod 64 = x2"
      unfolding e by (rule div_mod_64 [OF x(3)])+
    have h: "cp div 4096 = (cp div 64) div 64"
      by (simp add: div_mult2_eq)
    have d2: "cp div 4096 = b0 - 224" "cp div 64 mod 64 = x1"
      unfolding h d by (rule div_mod_64 [OF x(1)])+
    have "cp < 65536"
      unfolding e using x(1,3) a(2) by simp
    then show ?thesis
      using x a c0 d d2 r by (auto simp: utf8_bytes_def s s1)
  next
    case four
    then obtain c1 c2 c3 where s1: "s1 = c1 # c2 # c3 # rest"
      and k: "continuation c1" "continuation c2" "continuation c3"
      and cp: "cp = (b0 - 240) * 262144 + (of_char c1 - 128) * 4096
                    + (of_char c2 - 128) * 64 + (of_char c3 - 128)"
      and r: "65536 \<le> cp" "cp < 1114112"
      using assms by (auto simp: Let_def split: list.splits if_splits)
    define x1 where "x1 = (of_char c1 :: nat) - 128"
    define x2 where "x2 = (of_char c2 :: nat) - 128"
    define x3 where "x3 = (of_char c3 :: nat) - 128"
    have x: "x1 < 64" "char_of (128 + x1) = c1" "x2 < 64" "char_of (128 + x2) = c2"
      "x3 < 64" "char_of (128 + x3) = c3"
      using k unfolding x1_def x2_def x3_def by (simp_all add: continuation_low)
    have a: "240 + (b0 - 240) = b0"
      using four by simp
    have e: "cp = (((b0 - 240) * 64 + x1) * 64 + x2) * 64 + x3"
      unfolding cp x1_def x2_def x3_def by simp
    have d: "cp div 64 = ((b0 - 240) * 64 + x1) * 64 + x2" "cp mod 64 = x3"
      unfolding e by (rule div_mod_64 [OF x(5)])+
    have h: "cp div 4096 = (cp div 64) div 64"
      by (simp add: div_mult2_eq)
    have d2: "cp div 4096 = (b0 - 240) * 64 + x1" "cp div 64 mod 64 = x2"
      unfolding h d by (rule div_mod_64 [OF x(3)])+
    have h2: "cp div 262144 = (cp div 4096) div 64"
      by (simp add: div_mult2_eq)
    have d3: "cp div 262144 = b0 - 240" "cp div 4096 mod 64 = x1"
      unfolding h2 d2 by (rule div_mod_64 [OF x(1)])+
    show ?thesis
      using x a c0 d d2 d3 r by (auto simp: utf8_bytes_def s s1)
  qed
  then show "utf8_bytes cp @ rest = s" and "cp < 55296 \<or> 57344 \<le> cp" and "cp < 1114112"
    by simp_all
qed

subsection \<open>The text of a list of strings is read back\<close>

lemma hexval_hexdigit: "k < 16 \<Longrightarrow> hexval (hexdigit k) = Some k"
  by (auto simp: hexval_def hexdigit_def Let_def)

lemma hex4_value:
  fixes n :: nat
  shows "4096 * (n div 4096) + 256 * (n div 256 mod 16) + 16 * (n div 16 mod 16) + n mod 16 = n"
proof -
  have a: "n div 256 = (n div 16) div 16" "n div 4096 = (n div 256) div 16"
    by (simp_all add: div_mult2_eq)
  have "n = 16 * (n div 16) + n mod 16"
    by simp
  moreover have "n div 16 = 16 * (n div 256) + n div 16 mod 16"
    unfolding a by simp
  moreover have "n div 256 = 16 * (n div 4096) + n div 256 mod 16"
    unfolding a by simp
  ultimately show ?thesis
    by linarith
qed

lemma scan_hex4_digits:
  assumes "n < 65536"
  shows "scan_hex4 (hex4_digits n @ t) = Some (n, t)"
proof -
  have "n div 4096 < 16"
    using assms by (simp add: less_mult_imp_div_less)
  then show ?thesis
    using hex4_value [of n]
    by (simp add: scan_hex4_def hex4_digits_def hex4_def hexval_hexdigit)
qed

lemma char_of_specials:
  "char_of (34 :: nat) = CHR 0x22" "char_of (92 :: nat) = CHR 0x5C"
  "char_of (10 :: nat) = CHR 0x0A" "char_of (13 :: nat) = CHR 0x0D"
  "char_of (9 :: nat) = CHR 0x09" "char_of (8 :: nat) = CHR 0x08"
  "char_of (12 :: nat) = CHR 0x0C"
  by code_simp+

lemma char_of_eq_iff:
  fixes n :: nat
  assumes "n < 256"
  shows "char_of n = c \<longleftrightarrow> n = of_char c"
proof
  assume "char_of n = c"
  then have "(of_char (char_of n :: char) :: nat) = of_char c"
    by simp
  then show "n = of_char c"
    using assms by simp
next
  assume "n = of_char c"
  then show "char_of n = c"
    by simp
qed

lemma scanstring_escape_scalar:
  assumes "cp < 55296 \<or> 57344 \<le> cp" and "cp < 1114112"
  shows "scanstring (json_escape cp @ t) = app_fst (utf8_bytes cp) (scanstring t)"
proof -
  consider (special) "cp \<in> {34, 92, 10, 13, 9, 8, 12}"
    | (raw) "cp \<notin> {34, 92, 10, 13, 9, 8, 12}" "32 \<le> cp" "cp \<le> 126"
    | (single) "cp \<notin> {34, 92, 10, 13, 9, 8, 12}" "cp < 32 \<or> 126 < cp" "cp < 65536"
    | (pair) "65536 \<le> cp"
    by fastforce
  then show ?thesis
  proof cases
    case special
    then show ?thesis
      by (elim insertE emptyE)
        (simp_all add: json_escape_def scan_escape_def unescape_def utf8_bytes_def
          char_of_specials)
  next
    case raw
    then have "char_of cp \<noteq> CHR 0x22" "char_of cp \<noteq> CHR 0x5C"
      "32 \<le> (of_char (char_of cp :: char) :: nat)"
      by (simp_all add: char_of_eq_iff)
    then show ?thesis
      using raw by (simp add: json_escape_def utf8_bytes_def)
  next
    case single
    have "scan_escape (CHR ''u'' # hex4_digits cp @ t) = Some (utf8_bytes cp, t)"
      using assms(1) single(3)
      by (auto simp: scan_escape_def scan_hex4_digits)
    then show ?thesis
      using single by (simp add: json_escape_def)
  next
    case pair
    define v where "v = cp - 65536"
    have v: "v < 1048576" "cp = 65536 + v"
      using pair assms(2) by (simp_all add: v_def)
    have hi: "v div 1024 < 1024"
      using v(1) by (simp add: less_mult_imp_div_less)
    have lo: "v mod 1024 < 1024"
      by simp
    have j: "65536 + (55296 + v div 1024 - 55296) * 1024 + (56320 + v mod 1024 - 56320) = cp"
      unfolding v(2) by simp
    have "scan_escape (CHR ''u'' # hex4_digits (55296 + v div 1024) @
            CHR 0x5C # CHR ''u'' # hex4_digits (56320 + v mod 1024) @ t) =
          Some (utf8_bytes cp, t)"
      using hi lo j
      by (simp add: scan_escape_def scan_hex4_digits)
    then show ?thesis
      using pair by (simp add: json_escape_def v_def)
  qed
qed

lemma scanstring_escape_stray:
  assumes "128 \<le> b" and "b < 256"
  shows "scanstring (json_escape (56320 + b) @ t) = app_fst [char_of b] (scanstring t)"
proof -
  have "scan_escape (CHR ''u'' # hex4_digits (56320 + b) @ t) = Some ([char_of b], t)"
    using assms by (simp add: scan_escape_def scan_hex4_digits)
  then show ?thesis
    using assms by (simp add: json_escape_def)
qed

lemma utf8_next_None: "utf8_next (c # s) = None \<Longrightarrow> 128 \<le> (of_char c :: nat)"
  by (auto simp: utf8_next_def Let_def split: if_splits)

lemma of_char_lt_256: "(of_char c :: nat) < 256"
  by (cases c) simp

lemma scanstring_body:
  "scanstring (concat (map json_escape (codepoints s)) @ CHR 0x22 # t) = Some (s, t)"
proof (induction s rule: codepoints.induct)
  case 1
  show ?case by simp
next
  case (2 c s)
  show ?case
  proof (cases "utf8_next (c # s)")
    case None
    have "scanstring (json_escape (56320 + of_char c) @
            concat (map json_escape (codepoints s)) @ CHR 0x22 # t) = Some (c # s, t)"
      using scanstring_escape_stray [OF utf8_next_None [OF None] of_char_lt_256]
        "2.IH"(1) [OF None]
      by (simp add: app_fst_def)
    then show ?thesis
      by (simp add: codepoints.simps(2) None)
  next
    case (Some a)
    obtain cp rest where a: "a = (cp, rest)" by (cases a)
    have n: "utf8_next (c # s) = Some (cp, rest)"
      using Some a by simp
    have "scanstring (json_escape cp @
            concat (map json_escape (codepoints rest)) @ CHR 0x22 # t) = Some (c # s, t)"
      using scanstring_escape_scalar [OF utf8_next_bytes(2,3) [OF n]]
        "2.IH"(2) [OF Some a [symmetric]] utf8_next_bytes(1) [OF n]
      by (simp add: app_fst_def)
    then show ?thesis
      by (simp add: codepoints.simps(2) n)
  qed
qed

lemma json_join_head: "xs \<noteq> [] \<Longrightarrow> \<exists>t. json_join xs = CHR 0x22 # t"
  by (induction xs rule: json_join.induct) (simp_all add: json_dumps_str_def)

lemma skip_ws_join: "xs \<noteq> [] \<Longrightarrow> skip_ws (json_join xs @ t) = json_join xs @ t"
  using json_join_head [of xs] by (auto simp: skip_ws_def is_ws_def)

lemma parse_array_last: "parse_array (json_dumps_str x @ '']'') = Some [x]"
  by (subst parse_array.simps)
    (simp add: json_dumps_str_def scanstring_body skip_ws_def is_ws_def)

lemma parse_array_more:
  "parse_array (json_dumps_str x @ '', '' @ t) = map_option (Cons x) (parse_array (skip_ws t))"
  by (subst parse_array.simps)
    (simp add: json_dumps_str_def scanstring_body skip_ws_def is_ws_def)

lemma parse_array_join:
  "xs \<noteq> [] \<Longrightarrow> parse_array (json_join xs @ '']'') = Some xs"
proof (induction xs rule: json_join.induct)
  case 1
  then show ?case by simp
next
  case (2 x)
  show ?case
    using parse_array_last [of x] by simp
next
  case (3 x y ys)
  have "parse_array (json_join (x # y # ys) @ '']'') =
        map_option (Cons x) (parse_array (skip_ws (json_join (y # ys) @ '']'')))"
    using parse_array_more [of x "json_join (y # ys) @ '']''"] by simp
  also have "\<dots> = Some (x # y # ys)"
    using 3 by (simp add: skip_ws_join)
  finally show ?case .
qed

lemma json_loads_dumps: "json_loads (json_dumps xs) = Some xs"
proof (cases "xs = []")
  case True
  then show ?thesis
    by (simp add: json_loads_def json_dumps_def skip_ws_def is_ws_def)
next
  case False
  then obtain t where t: "json_join xs = CHR 0x22 # t"
    using json_join_head by blast
  have "json_loads (json_dumps xs) = parse_array (CHR 0x22 # t @ '']'')"
    by (simp add: json_loads_def json_dumps_def t skip_ws_def is_ws_def)
  also have "\<dots> = Some xs"
    using parse_array_join [OF False] by (simp add: t)
  finally show ?thesis .
qed

lemma ascii_append [simp]: "ascii (s @ t) = (ascii s \<and> ascii t)"
  by (simp add: ascii_def)

lemma ascii_Cons: "ascii (c # s) = ((of_char c :: nat) < 128 \<and> ascii s)"
  by (simp add: ascii_def)

lemma ascii_Nil [simp]: "ascii []"
  by (simp add: ascii_def)

lemma utf8_next_ascii: "(of_char c :: nat) < 128 \<Longrightarrow> utf8_next (c # s) = Some (of_char c, s)"
  by (simp add: utf8_next_def)

lemma codepoints_ascii: "ascii s \<Longrightarrow> codepoints s = map of_char s"
  by (induction s) (simp_all add: ascii_Cons codepoints.simps(2) utf8_next_ascii)

lemma utf8_ascii: "ascii s \<Longrightarrow> utf8 s"
  unfolding utf8_def
  by (induction s) (simp_all add: ascii_Cons codepoints.simps(2) utf8_next_ascii)

lemma codepoints_bound: "list_all (\<lambda>cp. cp < 1114112) (codepoints s)"
proof (induction s rule: codepoints.induct)
  case 1
  show ?case by simp
next
  case (2 c s)
  show ?case
  proof (cases "utf8_next (c # s)")
    case None
    have "56320 + (of_char c :: nat) < 1114112"
      using of_char_lt_256 [of c] by linarith
    then show ?thesis
      using "2.IH"(1) [OF None] by (simp add: codepoints.simps(2) None)
  next
    case (Some a)
    obtain cp rest where a: "a = (cp, rest)" by (cases a)
    have n: "utf8_next (c # s) = Some (cp, rest)"
      using Some a by simp
    show ?thesis
      using "2.IH"(2) [OF Some a [symmetric]] utf8_next_bytes(3) [OF n]
      by (simp add: codepoints.simps(2) n)
  qed
qed

lemma ascii_hexdigit: "k < 16 \<Longrightarrow> (of_char (hexdigit k) :: nat) < 128"
  by (simp add: hexdigit_def)

lemma ascii_hex4_digits:
  assumes "n < 65536"
  shows "ascii (hex4_digits n)"
proof -
  have "n div 4096 < 16"
    using assms by (simp add: less_mult_imp_div_less)
  then show ?thesis
    by (simp add: hex4_digits_def ascii_Cons ascii_hexdigit)
qed

lemma ascii_json_escape:
  assumes "cp < 1114112"
  shows "ascii (json_escape cp)"
proof (cases "cp < 65536")
  case True
  then show ?thesis
    by (simp add: json_escape_def ascii_Cons ascii_hex4_digits)
next
  case False
  define v where "v = cp - 65536"
  have "v < 1048576"
    using assms by (simp add: v_def)
  then have "v div 1024 < 1024"
    by (simp add: less_mult_imp_div_less)
  moreover have "v mod 1024 < 1024"
    by simp
  ultimately have "ascii (hex4_digits (55296 + v div 1024))"
    "ascii (hex4_digits (56320 + v mod 1024))"
    by (simp_all add: ascii_hex4_digits)
  then show ?thesis
    using False by (simp add: json_escape_def ascii_Cons v_def)
qed

lemma ascii_concat_escape:
  "list_all (\<lambda>cp. cp < 1114112) cps \<Longrightarrow> ascii (concat (map json_escape cps))"
  by (induction cps) (simp_all add: ascii_json_escape)

lemma ascii_json_dumps_str: "ascii (json_dumps_str s)"
  by (simp add: json_dumps_str_def ascii_Cons ascii_concat_escape codepoints_bound)

lemma ascii_json_join: "ascii (json_join xs)"
  by (induction xs rule: json_join.induct) (simp_all add: ascii_json_dumps_str ascii_Cons)

lemma ascii_json_dumps: "ascii (json_dumps xs)"
  by (simp add: json_dumps_def ascii_json_join ascii_Cons)

lemma json_escape_plain:
  assumes "32 \<le> (of_char c :: nat)" "(of_char c :: nat) < 127" "c \<noteq> CHR 0x22" "c \<noteq> CHR 0x5C"
  shows "json_escape (of_char c) = [c]"
proof -
  have "(of_char c :: nat) \<noteq> 34" "(of_char c :: nat) \<noteq> 92"
    using assms(3,4) by (metis char_of_specials(1) char_of_char, metis char_of_specials(2) char_of_char)
  then show ?thesis
    using assms(1,2) by (simp add: json_escape_def)
qed

lemma json_dumps_str_plain:
  assumes "list_all (\<lambda>c. 32 \<le> (of_char c :: nat) \<and> (of_char c :: nat) < 127 \<and>
             c \<noteq> CHR 0x22 \<and> c \<noteq> CHR 0x5C) s"
  shows "json_dumps_str s = CHR 0x22 # s @ [CHR 0x22]"
proof -
  have a: "ascii s"
    using assms by (induction s) (simp_all add: ascii_Cons)
  have "concat (map json_escape (map of_char s)) = s"
    using assms by (induction s) (simp_all add: json_escape_plain)
  then show ?thesis
    by (simp add: json_dumps_str_def codepoints_ascii [OF a])
qed

subsection \<open>The decimal text of an integer is read back\<close>

lemma decimal_digits: "list_all is_digit (decimal n)"
proof (induction n rule: decimal.induct)
  case (1 n)
  show ?case
  proof (cases "n < 10")
    case True
    then show ?thesis
      by (subst decimal.simps) (simp add: is_digit_def)
  next
    case False
    have "n mod 10 < 10" by simp
    then have "is_digit (char_of (48 + n mod 10))"
      by (simp add: is_digit_def)
    with False 1 show ?thesis
      by (subst decimal.simps) simp
  qed
qed

lemma decimal_nonempty: "decimal n \<noteq> []"
  by (subst decimal.simps) simp

lemma digits_value_append:
  "list_all is_digit ds \<Longrightarrow> is_digit d \<Longrightarrow>
   digits_value acc p ds = Some v \<Longrightarrow>
   digits_value acc p (ds @ [d]) = Some (v * 10 + (of_char d - 48))"
  by (induction ds arbitrary: acc p) (auto split: if_splits)

lemma digits_value_decimal: "digits_value 0 False (decimal n) = Some n"
proof (induction n rule: decimal.induct)
  case (1 n)
  show ?case
  proof (cases "n < 10")
    case True
    then show ?thesis
      by (subst decimal.simps) (simp add: is_digit_def)
  next
    case False
    have d: "is_digit (char_of (48 + n mod 10))"
      by (simp add: is_digit_def)
    have v: "(of_char (char_of (48 + n mod 10) :: char) :: nat) - 48 = n mod 10"
      by simp
    have "digits_value 0 False (decimal (n div 10) @ [char_of (48 + n mod 10)]) =
          Some (n div 10 * 10 + n mod 10)"
      using digits_value_append [OF decimal_digits d 1 [OF False]] v by simp
    with False show ?thesis
      by (subst decimal.simps) simp
  qed
qed

lemma digit_not_space: "is_digit c \<Longrightarrow> \<not> is_space c"
  by (auto simp: is_digit_def is_space_def)

lemma strip_id:
  assumes "s \<noteq> []" "\<not> is_space (hd s)" "\<not> is_space (last s)"
  shows "strip s = s"
proof -
  have a: "dropWhile is_space s = s"
    using assms by (cases s) simp_all
  have "rev s \<noteq> []" "\<not> is_space (hd (rev s))"
    using assms by (simp_all add: hd_rev)
  then have "dropWhile is_space (rev s) = rev s"
    by (cases "rev s") simp_all
  with a show ?thesis by (simp add: strip_def)
qed

lemma decimal_hd_last: "is_digit (hd (decimal n))" "is_digit (last (decimal n))"
  using decimal_digits [of n] decimal_nonempty [of n]
  by (auto simp: list_all_iff)

lemma decimal_hd_not_sign: "hd (decimal n) \<noteq> CHR ''-''" "hd (decimal n) \<noteq> CHR ''+''"
  using decimal_hd_last(1) [of n] by (auto simp: is_digit_def)

lemma py_int_decimal: "py_int (decimal n) = Some (int n)"
proof -
  have s: "strip (decimal n) = decimal n"
    by (rule strip_id) (simp_all add: decimal_nonempty decimal_hd_last digit_not_space)
  obtain c cs where c: "decimal n = c # cs"
    using decimal_nonempty [of n] by (cases "decimal n") auto
  have "c \<noteq> CHR ''-''" "c \<noteq> CHR ''+''"
    using decimal_hd_not_sign [of n] c by simp_all
  then have "py_int (decimal n) = map_option int (digits_value 0 False (c # cs))"
    unfolding py_int_def s unfolding c by simp
  then show ?thesis
    using digits_value_decimal [of n] unfolding c by simp
qed

lemma minus_not_space: "\<not> is_space (CHR ''-'')"
  by (simp add: is_space_def)

lemma py_int_repr: "py_int (int_repr i) = Some i"
proof (cases "i < 0")
  case True
  have "\<not> is_space (last (decimal (nat (- i))))"
    by (simp add: decimal_hd_last digit_not_space)
  then have s: "strip (CHR ''-'' # decimal (nat (- i))) = CHR ''-'' # decimal (nat (- i))"
    by (intro strip_id) (simp_all add: decimal_nonempty minus_not_space)
  show ?thesis
    using True by (simp add: int_repr_def py_int_def s digits_value_decimal)
next
  case False
  then show ?thesis
    by (simp add: int_repr_def py_int_decimal)
qed

lemma ascii_decimal: "ascii (decimal n)"
  using decimal_digits [of n] by (auto simp: ascii_def list_all_iff is_digit_def)

lemma ascii_int_repr: "ascii (int_repr i)"
  by (simp add: int_repr_def ascii_decimal ascii_Cons)

subsection \<open>Decoding what the handlers store\<close>

lemma decode_json_dumps: "decode (json_dumps xs) = Inr (json_dumps xs)"
  by (simp add: decode_def utf8_ascii ascii_json_dumps)

subsection \<open>Redis commands and the two round trips\<close>

lemma hgetall_touch: "hgetall (touch k r) k' = hgetall r k'"
  by (simp add: hgetall_def touch_def)

lemma hashes_touch: "hashes (touch k r) = hashes r"
  by (simp add: touch_def)

lemma hgetall_hset:
  "hgetall (snd (run_command (HSET k f v) r)) k' =
     (if k' = k then AList.update f v (hgetall r k) else hgetall r k')"
  by (simp add: hgetall_touch) (simp add: hgetall_def update_conv')

lemma hgetall_hset2:
  "hgetall (snd (run_commands [HSET k f1 v1, HSET k f2 v2] r)) k' =
     (if k' = k then AList.update f2 v2 (AList.update f1 v1 (hgetall r k)) else hgetall r k')"
proof -
  have "snd (run_commands [HSET k f1 v1, HSET k f2 v2] r) =
        snd (run_command (HSET k f2 v2) (snd (run_command (HSET k f1 v1) r)))"
    by (simp add: split_beta Let_def)
  then show ?thesis
    by (simp only: hgetall_hset) simp
qed

lemma remove_item_read_eq:
  "remove_item_read r k = (Inr [HashReply (hgetall r k)], r, new_pipeline)"
  by (simp add: remove_item_read_def execute_def watch_def multi_def queue_def
      new_pipeline_def reset_def)

lemma add_item_read_eq:
  "add_item_read r k =
     (Inr [IntReply (if map_of (hashes r) k = None then 0 else 1), HashReply (hgetall r k)],
      r, new_pipeline)"
  by (simp add: add_item_read_def execute_def watch_def multi_def queue_def
      new_pipeline_def reset_def)

lemma execute_commit:
  "execute r (queue c2 (queue c1 (multi new_pipeline))) =
     (Inr (fst (run_commands [c1, c2] r)), snd (run_commands [c1, c2] r), new_pipeline)"
  by (simp add: execute_def multi_def queue_def new_pipeline_def reset_def split_beta Let_def)

subsection \<open>addItem and removeItem on a record that can be read\<close>

lemma field_exists:
  "map_of (hgetall r k) f = Some v \<Longrightarrow> map_of (hashes r) k \<noteq> None \<and> hgetall r k \<noteq> []"
  by (auto simp: hgetall_def split: option.splits)

lemma stored_fields:
  assumes "stored_items r oid = Some items" and "stored_total_cost r oid = Some cost"
  obtains itext ctext where
    "map_of (hgetall r (''order:'' @ oid)) ''items'' = Some itext" "utf8 itext"
    "json_loads itext = Some items"
    "map_of (hgetall r (''order:'' @ oid)) ''total_cost'' = Some ctext" "py_int ctext = Some cost"
  using assms
  by (auto simp: stored_items_def stored_total_cost_def decode_def
      split: option.splits if_splits)

lemma add_item_eq:
  assumes "stored_items r oid = Some items" and "stored_total_cost r oid = Some cost"
  shows "add_item r oid item stock =
     (case get_item_price stock of
        Inl e \<Rightarrow> ((TextDict e, 500), r)
      | Inr None \<Rightarrow> ((error_body ''Item not found'', 400), r)
      | Inr (Some p) \<Rightarrow>
          ((success_body, 200),
           snd (run_commands
                  [HSET (''order:'' @ oid) ''items'' (json_dumps (items @ [item])),
                   HSET (''order:'' @ oid) ''total_cost'' (int_repr (cost + p))] r)))"
proof -
  obtain itext ctext where f:
    "map_of (hgetall r (''order:'' @ oid)) ''items'' = Some itext" "utf8 itext"
    "json_loads itext = Some items"
    "map_of (hgetall r (''order:'' @ oid)) ''total_cost'' = Some ctext" "py_int ctext = Some cost"
    using stored_fields [OF assms] by blast
  obtain y where ex: "map_of (hashes r) (''order:'' @ oid) = Some y"
    using field_exists [OF f(1)] by auto
  show ?thesis
    unfolding add_item_def add_item_read_eq add_item_write_def
    using f ex
    by (simp add: truthy_def load_items_def load_total_cost_def getitem_def decode_def
        execute_commit split_beta Let_def split: sum.splits option.splits)
qed

lemma remove_item_eq:
  assumes "stored_items r oid = Some items" and "stored_total_cost r oid = Some cost"
  shows "remove_item r oid item stock =
     (case get_item_price stock of
        Inl e \<Rightarrow> ((Text e, 500), r)
      | Inr None \<Rightarrow> ((error_body ''Item not found'', 400), r)
      | Inr (Some p) \<Rightarrow>
          if item \<notin> set items then ((error_body ''Item not in order'', 400), r)
          else
          ((success_body, 200),
           snd (run_commands
                  [HSET (''order:'' @ oid) ''items'' (json_dumps (remove1 item items)),
                   HSET (''order:'' @ oid) ''total_cost'' (int_repr (cost - p))] r)))"
proof -
  obtain itext ctext where f:
    "map_of (hgetall r (''order:'' @ oid)) ''items'' = Some itext" "utf8 itext"
    "json_loads itext = Some items"
    "map_of (hgetall r (''order:'' @ oid)) ''total_cost'' = Some ctext" "py_int ctext = Some cost"
    using stored_fields [OF assms] by blast
  have ex: "hgetall r (''order:'' @ oid) \<noteq> []"
    using field_exists [OF f(1)] by simp
  show ?thesis
    unfolding remove_item_def remove_item_read_eq remove_item_write_def
    using f ex
    by (simp add: truthy_def load_items_def load_total_cost_def getitem_def decode_def
        execute_commit split_beta Let_def split: sum.splits option.splits)
qed

lemma stored_after_commit:
  "stored_items (snd (run_commands
       [HSET (''order:'' @ oid) ''items'' (json_dumps xs),
        HSET (''order:'' @ oid) ''total_cost'' (int_repr c)] r)) oid = Some xs"
  "stored_total_cost (snd (run_commands
       [HSET (''order:'' @ oid) ''items'' (json_dumps xs),
        HSET (''order:'' @ oid) ''total_cost'' (int_repr c)] r)) oid = Some c"
  by (simp_all add: stored_items_def stored_total_cost_def hgetall_hset2 update_conv'
      json_loads_dumps decode_json_dumps py_int_repr del: run_commands.simps)

lemma add_item_completes:
  assumes "stored_items r oid = Some items" and "stored_total_cost r oid = Some cost"
    and "get_item_price stock = Inr (Some p)"
  shows "fst (add_item r oid item stock) = (success_body, 200)"
    and "stored_items (snd (add_item r oid item stock)) oid = Some (items @ [item])"
    and "stored_total_cost (snd (add_item r oid item stock)) oid = Some (cost + p)"
    and "hgetall (snd (add_item r oid item stock)) (''order:'' @ oid) =
           AList.update ''total_cost'' (int_repr (cost + p))
             (AList.update ''items'' (json_dumps (items @ [item]))
                (hgetall r (''order:'' @ oid)))"
proof -
  have eq: "add_item r oid item stock =
      ((success_body, 200),
       snd (run_commands
              [HSET (''order:'' @ oid) ''items'' (json_dumps (items @ [item])),
               HSET (''order:'' @ oid) ''total_cost'' (int_repr (cost + p))] r))"
    unfolding add_item_eq [OF assms(1,2)] assms(3) by simp
  show "fst (add_item r oid item stock) = (success_body, 200)"
    unfolding eq by simp
  show "stored_items (snd (add_item r oid item stock)) oid = Some (items @ [item])"
    unfolding eq snd_conv by (rule stored_after_commit)
  show "stored_total_cost (snd (add_item r oid item stock)) oid = Some (cost + p)"
    unfolding eq snd_conv by (rule stored_after_commit)
  show "hgetall (snd (add_item r oid item stock)) (''order:'' @ oid) =
           AList.update ''total_cost'' (int_repr (cost + p))
             (AList.update ''items'' (json_dumps (items @ [item]))
                (hgetall r (''order:'' @ oid)))"
    unfolding eq snd_conv hgetall_hset2 by (simp only: simp_thms if_True)
qed

lemma remove_item_completes:
  assumes "stored_items r oid = Some items" and "stored_total_cost r oid = Some cost"
    and "get_item_price stock = Inr (Some p)" and "item \<in> set items"
  shows "fst (remove_item r oid item stock) = (success_body, 200)"
    and "stored_items (snd (remove_item r oid item stock)) oid = Some (remove1 item items)"
    and "stored_total_cost (snd (remove_item r oid item stock)) oid = Some (cost - p)"
    and "hgetall (snd (remove_item r oid item stock)) (''order:'' @ oid) =
           AList.update ''total_cost'' (int_repr (cost - p))
             (AList.update ''items'' (json_dumps (remove1 item items))
                (hgetall r (''order:'' @ oid)))"
proof -
  have eq: "remove_item r oid item stock =
      ((success_body, 200),
       snd (run_commands
              [HSET (''order:'' @ oid) ''items'' (json_dumps (remove1 item items)),
               HSET (''order:'' @ oid) ''total_cost'' (int_repr (cost - p))] r))"
    unfolding remove_item_eq [OF assms(1,2)] assms(3) using assms(4) by simp
  show "fst (remove_item r oid item stock) = (success_body, 200)"
    unfolding eq by simp
  show "stored_items (snd (remove_item r oid item stock)) oid = Some (remove1 item items)"
    unfolding eq snd_conv by (rule stored_after_commit)
  show "stored_total_cost (snd (remove_item r oid item stock)) oid = Some (cost - p)"
    unfolding eq snd_conv by (rule stored_after_commit)
  show "hgetall (snd (remove_item r oid item stock)) (''order:'' @ oid) =
           AList.update ''total_cost'' (int_repr (cost - p))
             (AList.update ''items'' (json_dumps (remove1 item items))
                (hgetall r (''order:'' @ oid)))"
    unfolding eq snd_conv hgetall_hset2 by (simp only: simp_thms if_True)
qed

lemma add_item_without_price:
  assumes "stored_items r oid = Some items" and "stored_total_cost r oid = Some cost"
    and "\<forall>p. get_item_price stock \<noteq> Inr (Some p)"
  shows "snd (fst (add_item r oid item stock)) \<noteq> 200" and "snd (add_item r oid item stock) = r"
  using assms(3) unfolding add_item_eq [OF assms(1,2)]
  by (simp_all split: sum.splits option.splits)

lemma remove_item_without_effect:
  assumes "stored_items r oid = Some items" and "stored_total_cost r oid = Some cost"
    and "(\<forall>p. get_item_price stock \<noteq> Inr (Some p)) \<or> item \<notin> set items"
  shows "snd (fst (remove_item r oid item stock)) \<noteq> 200"
    and "snd (remove_item r oid item stock) = r"
  using assms(3) unfolding remove_item_eq [OF assms(1,2)]
  by (auto split: sum.splits option.splits)

subsection \<open>Sequences of calls\<close>

lemma fields_after_Cons: "fields_after v (c # cs) = fields_after (fields_after v [c]) cs"
proof -
  obtain items cost where v: "v = (items, cost)" by (cases v)
  obtain opn stock where c: "c = (opn, stock)" by (cases c)
  show ?thesis
    unfolding v c by (cases opn) simp_all
qed

lemma call_handler_status:
  assumes "stored_items r oid = Some items" and "stored_total_cost r oid = Some cost"
  shows "(snd (fst (call_handler r oid (opn, stock))) = 200) =
     (case get_item_price stock of
        Inr (Some p) \<Rightarrow> (case opn of AddItem i \<Rightarrow> True | RemoveItem i \<Rightarrow> i \<in> set items)
      | _ \<Rightarrow> False)"
proof (cases opn)
  case (AddItem i)
  show ?thesis
  proof (cases "\<exists>p. get_item_price stock = Inr (Some p)")
    case True
    then obtain p where p: "get_item_price stock = Inr (Some p)" by blast
    show ?thesis
      using add_item_completes(1) [OF assms p, of i] by (simp add: AddItem p)
  next
    case False
    then have n: "\<forall>p. get_item_price stock \<noteq> Inr (Some p)" by simp
    show ?thesis
      using add_item_without_price(1) [OF assms n, of i] n
      by (simp add: AddItem split: sum.splits option.splits)
  qed
next
  case (RemoveItem i)
  show ?thesis
  proof (cases "(\<exists>p. get_item_price stock = Inr (Some p)) \<and> i \<in> set items")
    case True
    then obtain p where p: "get_item_price stock = Inr (Some p)" and m: "i \<in> set items"
      by blast
    show ?thesis
      using remove_item_completes(1) [OF assms p m] m by (simp add: RemoveItem p)
  next
    case False
    then have n: "(\<forall>p. get_item_price stock \<noteq> Inr (Some p)) \<or> i \<notin> set items" by simp
    show ?thesis
      using remove_item_without_effect(1) [OF assms n] n
      by (auto simp: RemoveItem split: sum.splits option.splits)
  qed
qed

lemma call_handler_fields:
  assumes "stored_items r oid = Some items" and "stored_total_cost r oid = Some cost"
  shows "stored_items (snd (call_handler r oid c)) oid =
           Some (fst (fields_after (items, cost) [c]))"
    and "stored_total_cost (snd (call_handler r oid c)) oid =
           Some (snd (fields_after (items, cost) [c]))"
proof -
  obtain opn stock where c: "c = (opn, stock)" by (cases c)
  have "stored_items (snd (call_handler r oid c)) oid =
           Some (fst (fields_after (items, cost) [c])) \<and>
        stored_total_cost (snd (call_handler r oid c)) oid =
           Some (snd (fields_after (items, cost) [c]))"
  proof (cases opn)
    case (AddItem i)
    show ?thesis
    proof (cases "\<exists>p. get_item_price stock = Inr (Some p)")
      case True
      then obtain p where p: "get_item_price stock = Inr (Some p)" by blast
      show ?thesis
        using add_item_completes(2,3) [OF assms p, of i] by (simp add: c AddItem p)
    next
      case False
      then have n: "\<forall>p. get_item_price stock \<noteq> Inr (Some p)" by simp
      have "fields_after (items, cost) [(AddItem i, stock)] = (items, cost)"
        using n by (simp split: sum.splits option.splits)
      then show ?thesis
        using add_item_without_price(2) [OF assms n, of i] assms by (simp add: c AddItem)
    qed
  next
    case (RemoveItem i)
    show ?thesis
    proof (cases "(\<exists>p. get_item_price stock = Inr (Some p)) \<and> i \<in> set items")
      case True
      then obtain p where p: "get_item_price stock = Inr (Some p)" and m: "i \<in> set items"
        by blast
      show ?thesis
        using remove_item_completes(2,3) [OF assms p m] m by (simp add: c RemoveItem p)
    next
      case False
      then have n: "(\<forall>p. get_item_price stock \<noteq> Inr (Some p)) \<or> i \<notin> set items" by simp
      have "fields_after (items, cost) [(RemoveItem i, stock)] = (items, cost)"
        using n by (auto split: sum.splits option.splits)
      then show ?thesis
        using remove_item_without_effect(2) [OF assms n] assms by (simp add: c RemoveItem)
    qed
  qed
  then show "stored_items (snd (call_handler r oid c)) oid =
           Some (fst (fields_after (items, cost) [c]))"
    and "stored_total_cost (snd (call_handler r oid c)) oid =
           Some (snd (fields_after (items, cost) [c]))"
    by simp_all
qed

lemma run_calls_fields:
  assumes "stored_items r oid = Some items" and "stored_total_cost r oid = Some cost"
  shows "stored_items (run_calls r oid calls) oid = Some (fst (fields_after (items, cost) calls)) \<and>
         stored_total_cost (run_calls r oid calls) oid =
           Some (snd (fields_after (items, cost) calls))"
  using assms
proof (induction calls arbitrary: r items cost)
  case Nil
  then show ?case by simp
next
  case (Cons c cs)
  obtain items' cost' where n: "fields_after (items, cost) [c] = (items', cost')"
    by (cases "fields_after (items, cost) [c]")
  have "stored_items (snd (call_handler r oid c)) oid = Some items'"
    "stored_total_cost (snd (call_handler r oid c)) oid = Some cost'"
    using call_handler_fields [OF Cons.prems, of c] by (simp_all add: n)
  then show ?case
    using Cons.IH [of "snd (call_handler r oid c)" items' cost']
    by (simp add: fields_after_Cons [of _ c cs] n)
qed

subsection \<open>The entries of an order and their prices\<close>

lemma remove_first_fst: "map fst (remove_first i entries) = remove1 i (map fst entries)"
  by (induction entries) auto

lemma remove_first_sum:
  "map_of entries i = Some q \<Longrightarrow>
   sum_list (map snd (remove_first i entries)) = sum_list (map snd entries) - q"
  by (induction entries) auto

lemma spec_entries_single:
  "spec_entries r oid entries [(opn, stock)] =
     (if snd (fst (call_handler r oid (opn, stock))) \<noteq> 200 then entries
      else (case opn of
              AddItem i \<Rightarrow> entries @ [(i, quoted_price stock)]
            | RemoveItem i \<Rightarrow> remove_first i entries))"
  by (simp add: split_beta Let_def del: call_handler.simps)

lemma spec_entries_Cons:
  "spec_entries r oid entries (c # cs) =
     spec_entries (snd (call_handler r oid c)) oid (spec_entries r oid entries [c]) cs"
  by (cases c) (simp add: split_beta Let_def del: call_handler.simps)

lemma removals_single:
  "removals_at_insertion_price r oid entries [(opn, stock)] =
     (case opn of
        AddItem i \<Rightarrow> True
      | RemoveItem i \<Rightarrow>
          snd (fst (call_handler r oid (opn, stock))) \<noteq> 200 \<or>
          map_of entries i = Some (quoted_price stock))"
  by (simp add: split_beta Let_def del: call_handler.simps spec_entries.simps)

lemma removals_Cons:
  "removals_at_insertion_price r oid entries (c # c' # cs) =
     (removals_at_insertion_price r oid entries [c] \<and>
      removals_at_insertion_price (snd (call_handler r oid c)) oid
        (spec_entries r oid entries [c]) (c' # cs))"
  by (cases c) (simp add: split_beta Let_def del: call_handler.simps spec_entries.simps)

lemma removals_take:
  "removals_at_insertion_price r oid entries calls \<Longrightarrow>
   removals_at_insertion_price r oid entries (take n calls)"
proof (induction calls arbitrary: r entries n)
  case Nil
  then show ?case by simp
next
  case (Cons c cs)
  show ?case
  proof (cases n)
    case 0
    then show ?thesis by simp
  next
    case (Suc m)
    obtain opn stock where c: "c = (opn, stock)" by (cases c)
    have a: "removals_at_insertion_price (snd (call_handler r oid c)) oid
               (spec_entries r oid entries [c]) cs"
      and b: "removals_at_insertion_price r oid entries [c]"
      using Cons.prems unfolding c
      by (simp_all add: split_beta Let_def del: call_handler.simps spec_entries.simps)
    have "removals_at_insertion_price (snd (call_handler r oid c)) oid
               (spec_entries r oid entries [c]) (take m cs)"
      by (rule Cons.IH [OF a])
    then show ?thesis
      using b unfolding Suc c
      by (simp add: split_beta Let_def del: call_handler.simps spec_entries.simps)
  qed
qed

lemma call_keeps_entries:
  assumes "stored_items r oid = Some (map fst entries)"
    and "stored_total_cost r oid = Some (sum_list (map snd entries))"
    and "removals_at_insertion_price r oid entries [(opn, stock)]"
  shows "fields_after (map fst entries, sum_list (map snd entries)) [(opn, stock)] =
     (map fst (spec_entries r oid entries [(opn, stock)]),
      sum_list (map snd (spec_entries r oid entries [(opn, stock)])))"
proof (cases "\<exists>p. get_item_price stock = Inr (Some p)")
  case False
  then have "snd (fst (call_handler r oid (opn, stock))) \<noteq> 200"
    unfolding call_handler_status [OF assms(1,2)]
    by (simp split: sum.splits option.splits)
  moreover have "fields_after (map fst entries, sum_list (map snd entries)) [(opn, stock)] =
      (map fst entries, sum_list (map snd entries))"
    using False by (cases opn) (simp_all split: sum.splits option.splits)
  ultimately show ?thesis
    unfolding spec_entries_single by simp
next
  case True
  then obtain p where p: "get_item_price stock = Inr (Some p)" by blast
  have q: "quoted_price stock = p"
    by (simp add: quoted_price_def p)
  show ?thesis
  proof (cases opn)
    case (AddItem i)
    have "snd (fst (call_handler r oid (opn, stock))) = 200"
      unfolding call_handler_status [OF assms(1,2)] by (simp add: p AddItem)
    then show ?thesis
      unfolding spec_entries_single by (simp add: AddItem p q)
  next
    case (RemoveItem i)
    show ?thesis
    proof (cases "i \<in> set (map fst entries)")
      case True
      have s: "snd (fst (call_handler r oid (opn, stock))) = 200"
        unfolding call_handler_status [OF assms(1,2)] using True by (simp add: p RemoveItem)
      then have "map_of entries i = Some p"
        using assms(3) unfolding removals_single by (simp add: RemoveItem q)
      then have "sum_list (map snd (remove_first i entries)) = sum_list (map snd entries) - p"
        by (rule remove_first_sum)
      then show ?thesis
        unfolding spec_entries_single using s True
        by (simp add: RemoveItem p remove_first_fst)
    next
      case False
      have s: "snd (fst (call_handler r oid (opn, stock))) \<noteq> 200"
        unfolding call_handler_status [OF assms(1,2)] using False by (simp add: p RemoveItem)
      show ?thesis
        unfolding spec_entries_single using s False by (simp add: RemoveItem p)
    qed
  qed
qed

lemma run_calls_entries:
  assumes "stored_items r oid = Some (map fst entries)"
    and "stored_total_cost r oid = Some (sum_list (map snd entries))"
    and "removals_at_insertion_price r oid entries calls"
  shows "fields_after (map fst entries, sum_list (map snd entries)) calls =
     (map fst (spec_entries r oid entries calls),
      sum_list (map snd (spec_entries r oid entries calls)))"
  using assms
proof (induction calls arbitrary: r entries)
  case Nil
  then show ?case by simp
next
  case (Cons c cs)
  obtain opn stock where c: "c = (opn, stock)" by (cases c)
  have a: "removals_at_insertion_price (snd (call_handler r oid c)) oid
             (spec_entries r oid entries [c]) cs"
    and b: "removals_at_insertion_price r oid entries [(opn, stock)]"
    using Cons.prems(3) unfolding c
    by (simp_all add: split_beta Let_def del: call_handler.simps spec_entries.simps)
  have k: "fields_after (map fst entries, sum_list (map snd entries)) [c] =
     (map fst (spec_entries r oid entries [c]),
      sum_list (map snd (spec_entries r oid entries [c])))"
    unfolding c by (rule call_keeps_entries [OF Cons.prems(1,2) b])
  have "stored_items (snd (call_handler r oid c)) oid =
          Some (map fst (spec_entries r oid entries [c]))"
    "stored_total_cost (snd (call_handler r oid c)) oid =
          Some (sum_list (map snd (spec_entries r oid entries [c])))"
    using call_handler_fields [OF Cons.prems(1,2), of c] unfolding k by simp_all
  then have "fields_after (map fst (spec_entries r oid entries [c]),
                sum_list (map snd (spec_entries r oid entries [c]))) cs =
     (map fst (spec_entries (snd (call_handler r oid c)) oid (spec_entries r oid entries [c]) cs),
      sum_list (map snd
        (spec_entries (snd (call_handler r oid c)) oid (spec_entries r oid entries [c]) cs)))"
    by (rule Cons.IH [OF _ _ a])
  then show ?case
    unfolding fields_after_Cons [of _ c cs] k spec_entries_Cons [of r oid entries c cs] .
qed

subsection \<open>The record create writes\<close>

lemma create_order_eq:
  "create_order r oid uid =
     ((Jsonify (JObj [(''order_id'', JStr oid)]), 200),
      snd (run_commands
        [HSET (''order:'' @ oid) ''order_id'' oid,
         HSET (''order:'' @ oid) ''paid'' ''False'',
         HSET (''order:'' @ oid) ''items'' (json_dumps []),
         HSET (''order:'' @ oid) ''user_id'' uid,
         HSET (''order:'' @ oid) ''total_cost'' (int_repr 0)] r))"
  by (simp add: create_order_def execute_def multi_def queue_def new_pipeline_def reset_def
      split_beta Let_def del: run_commands.simps run_command.simps)

lemma run_commands_Cons:
  "snd (run_commands (c # cs) r) = snd (run_commands cs (snd (run_command c r)))"
  by (simp add: split_beta)

lemma hgetall_hset_same:
  "hgetall (snd (run_command (HSET k f v) r)) k = AList.update f v (hgetall r k)"
  by (simp only: hgetall_hset if_True simp_thms)

lemma hgetall_created:
  "hgetall (snd (create_order r oid uid)) (''order:'' @ oid) =
     AList.update ''total_cost'' ''0'' (AList.update ''user_id'' uid
       (AList.update ''items'' ''[]'' (AList.update ''paid'' ''False''
         (AList.update ''order_id'' oid (hgetall r (''order:'' @ oid))))))"
proof -
  have z: "int_repr 0 = ''0''" "json_dumps [] = ''[]''"
    by code_simp+
  show ?thesis
    unfolding create_order_eq snd_conv run_commands_Cons z
    by (simp only: hgetall_hset_same run_commands.simps snd_conv)
qed

lemma stored_created:
  "stored_items (snd (create_order r oid uid)) oid = Some []"
  "stored_total_cost (snd (create_order r oid uid)) oid = Some 0"
proof -
  have "json_loads ''[]'' = Some []"
    by code_simp
  moreover have "decode ''[]'' = Inr ''[]''"
    by (simp add: decode_def utf8_ascii ascii_def)
  ultimately show "stored_items (snd (create_order r oid uid)) oid = Some []"
    unfolding stored_items_def hgetall_created by (simp add: update_conv')
  have "py_int ''0'' = Some 0"
    by code_simp
  then show "stored_total_cost (snd (create_order r oid uid)) oid = Some 0"
    unfolding stored_total_cost_def hgetall_created by (simp add: update_conv')
qed

lemma hgetall_fresh_created:
  assumes "map_of (hashes r) (''order:'' @ oid) = None"
  shows "hgetall (snd (create_order r oid uid)) (''order:'' @ oid) =
     [(''order_id'', oid), (''paid'', ''False''), (''items'', ''[]''), (''user_id'', uid),
      (''total_cost'', ''0'')]"
proof -
  have "hgetall r (''order:'' @ oid) = []"
    using assms by (simp add: hgetall_def)
  then show ?thesis
    unfolding hgetall_created by simp
qed

lemma record_readable:
  assumes "hgetall r (''order:'' @ oid) =
     [(''order_id'', oid), (''paid'', ''False''), (''items'', json_dumps items),
      (''user_id'', uid), (''total_cost'', int_repr cost)]"
  shows "stored_items r oid = Some items" and "stored_total_cost r oid = Some cost"
  unfolding stored_items_def stored_total_cost_def assms
  by (simp_all add: decode_json_dumps json_loads_dumps py_int_repr)

lemma call_handler_record:
  assumes "hgetall r (''order:'' @ oid) =
     [(''order_id'', oid), (''paid'', ''False''), (''items'', json_dumps items),
      (''user_id'', uid), (''total_cost'', int_repr cost)]"
  shows "hgetall (snd (call_handler r oid c)) (''order:'' @ oid) =
     [(''order_id'', oid), (''paid'', ''False''),
      (''items'', json_dumps (fst (fields_after (items, cost) [c]))),
      (''user_id'', uid), (''total_cost'', int_repr (snd (fields_after (items, cost) [c])))]"
proof -
  note s = record_readable [OF assms]
  obtain opn stock where c: "c = (opn, stock)" by (cases c)
  show ?thesis
  proof (cases opn)
    case (AddItem i)
    show ?thesis
    proof (cases "\<exists>p. get_item_price stock = Inr (Some p)")
      case True
      then obtain p where p: "get_item_price stock = Inr (Some p)" by blast
      have "hgetall (snd (add_item r oid i stock)) (''order:'' @ oid) =
         [(''order_id'', oid), (''paid'', ''False''), (''items'', json_dumps (items @ [i])),
          (''user_id'', uid), (''total_cost'', int_repr (cost + p))]"
        unfolding add_item_completes(4) [OF s p] assms by simp
      then show ?thesis
        by (simp add: c AddItem p)
    next
      case False
      then have n: "\<forall>p. get_item_price stock \<noteq> Inr (Some p)" by simp
      have "fields_after (items, cost) [(AddItem i, stock)] = (items, cost)"
        using n by (simp split: sum.splits option.splits)
      then show ?thesis
        using add_item_without_price(2) [OF s n, of i] assms by (simp add: c AddItem)
    qed
  next
    case (RemoveItem i)
    show ?thesis
    proof (cases "(\<exists>p. get_item_price stock = Inr (Some p)) \<and> i \<in> set items")
      case True
      then obtain p where p: "get_item_price stock = Inr (Some p)" and m: "i \<in> set items"
        by blast
      have "hgetall (snd (remove_item r oid i stock)) (''order:'' @ oid) =
         [(''order_id'', oid), (''paid'', ''False''), (''items'', json_dumps (remove1 i items)),
          (''user_id'', uid), (''total_cost'', int_repr (cost - p))]"
        unfolding remove_item_completes(4) [OF s p m] assms by simp
      then show ?thesis
        using m by (simp add: c RemoveItem p)
    next
      case False
      then have n: "(\<forall>p. get_item_price stock \<noteq> Inr (Some p)) \<or> i \<notin> set items" by simp
      have "fields_after (items, cost) [(RemoveItem i, stock)] = (items, cost)"
        using n by (auto split: sum.splits option.splits)
      then show ?thesis
        using remove_item_without_effect(2) [OF s n] assms by (simp add: c RemoveItem)
    qed
  qed
qed

lemma run_calls_record:
  assumes "hgetall r (''order:'' @ oid) =
     [(''order_id'', oid), (''paid'', ''False''), (''items'', json_dumps items),
      (''user_id'', uid), (''total_cost'', int_repr cost)]"
  shows "hgetall (run_calls r oid calls) (''order:'' @ oid) =
     [(''order_id'', oid), (''paid'', ''False''),
      (''items'', json_dumps (fst (fields_after (items, cost) calls))),
      (''user_id'', uid), (''total_cost'', int_repr (snd (fields_after (items, cost) calls)))]"
  using assms
proof (induction calls arbitrary: r items cost)
  case Nil
  then show ?case by simp
next
  case (Cons c cs)
  obtain items' cost' where n: "fields_after (items, cost) [c] = (items', cost')"
    by (cases "fields_after (items, cost) [c]")
  have "hgetall (snd (call_handler r oid c)) (''order:'' @ oid) =
     [(''order_id'', oid), (''paid'', ''False''), (''items'', json_dumps items'),
      (''user_id'', uid), (''total_cost'', int_repr cost')]"
    using call_handler_record [OF Cons.prems, of c] unfolding n by simp
  then have "hgetall (run_calls (snd (call_handler r oid c)) oid cs) (''order:'' @ oid) =
     [(''order_id'', oid), (''paid'', ''False''),
      (''items'', json_dumps (fst (fields_after (items', cost') cs))),
      (''user_id'', uid), (''total_cost'', int_repr (snd (fields_after (items', cost') cs)))]"
    by (rule Cons.IH)
  then show ?case
    unfolding fields_after_Cons [of _ c cs] n by simp
qed

lemma created_record:
  assumes "map_of (hashes r) (''order:'' @ oid) = None"
  shows "hgetall (snd (create_order r oid uid)) (''order:'' @ oid) =
     [(''order_id'', oid), (''paid'', ''False''), (''items'', json_dumps []),
      (''user_id'', uid), (''total_cost'', int_repr 0)]"
proof -
  have z: "int_repr 0 = ''0''" "json_dumps [] = ''[]''"
    by code_simp+
  show ?thesis
    unfolding z by (rule hgetall_fresh_created [OF assms])
qed

subsection \<open>find on a stored record\<close>

lemma decode_fields_eq:
  assumes "distinct (map fst h)"
    and "list_all (\<lambda>(key, value). utf8 key \<and> utf8 value) h"
    and "\<And>value. map_of h ''items'' = Some value \<Longrightarrow> json_loads value = Some items"
  shows "decode_fields h =
     Inr (map (\<lambda>(key, value).
                 (key, if key = ''items'' then JArr (map JStr items) else JStr value)) h)"
  using assms
proof (induction h)
  case Nil
  then show ?case by simp
next
  case (Cons kv h)
  obtain k v where kv: "kv = (k, v)" by (cases kv)
  have d: "distinct (map fst h)" and nk: "k \<notin> fst ` set h"
    and u: "utf8 k" "utf8 v" and us: "list_all (\<lambda>(key, value). utf8 key \<and> utf8 value) h"
    using Cons.prems(1,2) by (simp_all add: kv)
  have rest: "decode_fields h =
     Inr (map (\<lambda>(key, value).
                 (key, if key = ''items'' then JArr (map JStr items) else JStr value)) h)"
  proof (rule Cons.IH [OF d us])
    fix x
    assume m: "map_of h ''items'' = Some x"
    then have "''items'' \<in> fst ` set h"
      by (meson domI dom_map_of_conv_image_fst [THEN equalityD1, THEN subsetD])
    then have "k \<noteq> ''items''"
      using nk by auto
    then show "json_loads x = Some items"
      using Cons.prems(3) [of x] m by (simp add: kv)
  qed
  show ?case
  proof (cases "k = ''items''")
    case True
    then have "json_loads v = Some items"
      using Cons.prems(3) [of v] by (simp add: kv)
    then show ?thesis
      using True u rest by (simp add: kv decode_def)
  next
    case False
    then show ?thesis
      using u rest by (simp add: kv decode_def)
  qed
qed

lemma decode_fields_map_of:
  "decode_fields h = Inr order \<Longrightarrow>
   map_of order field =
     (case map_of h field of
        None \<Rightarrow> None
      | Some v \<Rightarrow>
          if field \<noteq> ''items'' then Some (JStr v)
          else map_option (\<lambda>xs. JArr (map JStr xs)) (json_loads v))"
proof (induction h arbitrary: order)
  case Nil
  then show ?case by simp
next
  case (Cons kv h)
  obtain k v where kv: "kv = (k, v)" by (cases kv)
  from Cons.prems obtain x rest where
    x: "(if k \<noteq> ''items'' then Inr (JStr v)
         else (case json_loads v of None \<Rightarrow> Inl JSONDecodeError
               | Some xs \<Rightarrow> Inr (JArr (map JStr xs)))) = Inr x"
    and rest: "decode_fields h = Inr rest" and order: "order = (k, x) # rest"
    by (auto simp: kv decode_def split: sum.splits if_splits)
  show ?case
  proof (cases "field = k")
    case True
    then show ?thesis
      using x by (auto simp: kv order split: if_splits option.splits)
  next
    case False
    then show ?thesis
      using Cons.IH [OF rest] by (simp add: kv order)
  qed
qed

lemma decode_fields_utf8:
  "decode_fields h = Inr order \<Longrightarrow> map_of h field = Some v \<Longrightarrow> utf8 v"
proof (induction h arbitrary: order)
  case Nil
  then show ?case by simp
next
  case (Cons kv h)
  obtain k w where kv: "kv = (k, w)" by (cases kv)
  from Cons.prems(1) obtain rest where
    w: "utf8 w" and rest: "decode_fields h = Inr rest"
    by (auto simp: kv decode_def split: sum.splits if_splits)
  show ?case
  proof (cases "field = k")
    case True
    then show ?thesis
      using w Cons.prems(2) by (simp add: kv)
  next
    case False
    then show ?thesis
      using Cons.IH [OF rest] Cons.prems(2) by (simp add: kv)
  qed
qed

lemma find_order_eq:
  "find_order r oid =
     ((if hgetall r (''order:'' @ oid) = [] then (error_body ''Order not found'', 400)
       else (case decode_fields (hgetall r (''order:'' @ oid)) of
               Inl e \<Rightarrow> (Text e, 500)
             | Inr order \<Rightarrow> (Jsonify (JObj order), 200))), r)"
  by (simp add: find_order_def execute_def watch_def multi_def queue_def new_pipeline_def
      reset_def truthy_def split: sum.splits)

lemma find_order_record:
  assumes "hgetall r (''order:'' @ oid) =
     [(''order_id'', oid), (''paid'', ''False''), (''items'', json_dumps items),
      (''user_id'', uid), (''total_cost'', int_repr cost)]"
    and "utf8 oid" and "utf8 uid"
  shows "find_order r oid =
     ((Jsonify (JObj [(''order_id'', JStr oid), (''paid'', JStr ''False''),
                      (''items'', JArr (map JStr items)), (''user_id'', JStr uid),
                      (''total_cost'', JStr (int_repr cost))]), 200), r)"
proof -
  have a: "utf8 ''order_id''" "utf8 ''paid''" "utf8 ''False''" "utf8 ''items''"
    "utf8 ''user_id''" "utf8 ''total_cost''"
    by (simp_all add: utf8_ascii ascii_def)
  have b: "utf8 (json_dumps items)" "utf8 (int_repr cost)"
    by (simp_all add: utf8_ascii ascii_json_dumps ascii_int_repr)
  show ?thesis
    unfolding find_order_eq assms(1)
    by (simp add: decode_def a b assms(2,3) json_loads_dumps)
qed

subsection \<open>Watching\<close>

lemma execute_watch_error:
  "command_stack p \<noteq> [] \<Longrightarrow> fst (execute (touch k r) (watch k r p)) = Inl WatchError"
  by (simp add: execute_def watch_def touch_def version_of_def update_conv')

lemma add_item_meanwhile_id: "add_item_meanwhile (\<lambda>r. r) r oid item stock = add_item r oid item stock"
  by (simp add: add_item_meanwhile_def add_item_def)

subsection \<open>The hash against the Kafka client's test vectors\<close>

lemma murmur2_reference_vectors:
  "sint (murmur2 (encode_utf8 ''21'')) = - 973932308"
  "sint (murmur2 (encode_utf8 ''foobar'')) = - 790332482"
  "sint (murmur2 (encode_utf8 ''abc'')) = 479470107"
  "sint (murmur2 (encode_utf8 ''a-little-bit-long-string'')) = - 985981536"
  "sint (murmur2 (encode_utf8 ''a-little-bit-longer-string'')) = - 1486304829"
  by code_simp+

subsection \<open>The calls of a checkout\<close>

lemma saga_trace_cases:
  "snd (checkout_saga gid k l od) = [] \<or>
   snd (checkout_saga gid k l od) = [ConsumerCreated] \<or>
   (\<exists>n. partitions_for_topic k = Some n \<and>
      (snd (checkout_saga gid k l od) =
         [ConsumerCreated, ConsumerAssigned ''order_result_topic'' (partitionIndex gid n)] \<or>
       snd (checkout_saga gid k l od) =
         [ConsumerCreated, ConsumerAssigned ''order_result_topic'' (partitionIndex gid n),
          ProducerSend ''stock_check_topic'' gid
            (JObj [(''affected_items'', JArr (map JStr l)), (''action'', JStr ''remove''),
                   (''is_roll_back'', JStr ''false'')])] \<or>
       snd (checkout_saga gid k l od) =
         [ConsumerCreated, ConsumerAssigned ''order_result_topic'' (partitionIndex gid n),
          ProducerSend ''stock_check_topic'' gid
            (JObj [(''affected_items'', JArr (map JStr l)), (''action'', JStr ''remove''),
                   (''is_roll_back'', JStr ''false'')]),
          ProducerSend ''payment_processing_topic'' gid
            (JObj [(''order_data'', JObj od), (''action'', JStr ''pay''),
                   (''is_roll_back'', JStr ''false'')])]))"
  by (cases "partitions_for_topic k") (simp_all add: checkout_saga_def Let_def)

lemma checkout_trace:
  "snd (checkout r oid gid k) = [PipeUnwatch] \<or>
   (\<exists>l od. snd (checkout r oid gid k) = snd (checkout_saga gid k l od) @ [PipeUnwatch])"
  by (auto simp: checkout_def Let_def split_beta split: sum.splits list.splits reply.splits
      option.splits)

lemma saga_never_closes: "ConsumerClosed \<notin> set (snd (checkout_saga gid k l od))"
  by (cases "partitions_for_topic k") (simp_all add: checkout_saga_def Let_def)

lemma byte_keys_to_str_utf8:
  "list_all (\<lambda>(key, value). utf8 key \<and> utf8 value) h \<Longrightarrow> byte_keys_to_str h = Inr h"
  by (induction h) (auto simp: decode_def)

lemma checkout_eq:
  assumes "list_all (\<lambda>(key, value). utf8 key \<and> utf8 value) (hgetall r (''order:'' @ oid))"
    and "map_of (hgetall r (''order:'' @ oid)) ''items'' = Some itext"
    and "json_loads itext = Some l"
  shows "checkout r oid gid k =
     (case fst (checkout_saga gid k l (with_items (hgetall r (''order:'' @ oid)) l)) of
        Inl e \<Rightarrow> (Text e, 500)
      | Inr response \<Rightarrow> response,
      snd (checkout_saga gid k l (with_items (hgetall r (''order:'' @ oid)) l)) @ [PipeUnwatch])"
proof -
  have ne: "hgetall r (''order:'' @ oid) \<noteq> []"
    using field_exists [OF assms(2)] by simp
  have b: "byte_keys_to_str (hgetall r (''order:'' @ oid)) = Inr (hgetall r (''order:'' @ oid))"
    by (rule byte_keys_to_str_utf8 [OF assms(1)])
  show ?thesis
    unfolding checkout_def
    using assms(2,3) ne b
    by (simp add: execute_def watch_def multi_def queue_def new_pipeline_def reset_def
        split_beta Let_def split: sum.splits)
qed

text \<open>
  One run, used below: the order is new, the results topic has two partitions, another
  saga's reply arrives after nine seconds and this saga's own after eighteen.
\<close>

lemma partition_of_example:
  "partitionIndex ''7d444840-9dc0-41e6-96a7-c288e1c2fc59'' 2 = 0"
  "producer_partition ''7d444840-9dc0-41e6-96a7-c288e1c2fc59'' 2 = 1"
proof -
  show "partitionIndex ''7d444840-9dc0-41e6-96a7-c288e1c2fc59'' 2 = 0"
    by code_simp
  have k: "json_dumps_str ''7d444840-9dc0-41e6-96a7-c288e1c2fc59'' =
     CHR 0x22 # ''7d444840-9dc0-41e6-96a7-c288e1c2fc59'' @ [CHR 0x22]"
    by (rule json_dumps_str_plain) simp
  have "default_partitioner
          (encode_utf8 (CHR 0x22 # ''7d444840-9dc0-41e6-96a7-c288e1c2fc59'' @ [CHR 0x22])) 2 = 1"
    by code_simp
  then show "producer_partition ''7d444840-9dc0-41e6-96a7-c288e1c2fc59'' 2 = 1"
    unfolding producer_partition_def key_serializer_def k .
qed

lemma late_reply_run:
  "checkout (snd (create_order empty_redis ''o'' ''u'')) ''o''
     ''7d444840-9dc0-41e6-96a7-c288e1c2fc59''
     \<lparr>brokers_available = True, partitions_for_topic = Some 2, send_fails = [],
      messages =
        [Delivery 9000 (JStr ''5a2a1c1e-0b1f-4c7e-9d5e-3f6f0a4b7c21'')
           (JObj [(''status'', JStr ''success'')]),
         Delivery 18000 (JStr ''7d444840-9dc0-41e6-96a7-c288e1c2fc59'')
           (JObj [(''status'', JStr ''success'')])]\<rparr> =
   ((success_body, 200),
    [ConsumerCreated,
     ConsumerAssigned ''order_result_topic'' 0,
     ProducerSend ''stock_check_topic'' ''7d444840-9dc0-41e6-96a7-c288e1c2fc59''
       (JObj [(''affected_items'', JArr []), (''action'', JStr ''remove''),
              (''is_roll_back'', JStr ''false'')]),
     ProducerSend ''payment_processing_topic'' ''7d444840-9dc0-41e6-96a7-c288e1c2fc59''
       (JObj [(''order_data'',
               JObj [(''order_id'', JStr ''o''), (''paid'', JStr ''False''),
                     (''items'', JArr []), (''user_id'', JStr ''u''),
                     (''total_cost'', JStr ''0'')]),
              (''action'', JStr ''pay''), (''is_roll_back'', JStr ''false'')]),
     PipeUnwatch])"
proof -
  have fresh: "map_of (hashes empty_redis) (''order:'' @ ''o'') = None"
    by (simp add: empty_redis_def)
  have h: "hgetall (snd (create_order empty_redis ''o'' ''u'')) (''order:'' @ ''o'') =
     [(''order_id'', ''o''), (''paid'', ''False''), (''items'', ''[]''), (''user_id'', ''u''),
      (''total_cost'', ''0'')]"
    by (rule hgetall_fresh_created [OF fresh])
  have u: "list_all (\<lambda>(key, value). utf8 key \<and> utf8 value)
             (hgetall (snd (create_order empty_redis ''o'' ''u'')) (''order:'' @ ''o''))"
    unfolding h by (simp add: utf8_ascii ascii_def)
  have i: "map_of (hgetall (snd (create_order empty_redis ''o'' ''u'')) (''order:'' @ ''o''))
             ''items'' = Some ''[]''"
    unfolding h by simp
  have l: "json_loads ''[]'' = Some []"
    by code_simp
  show ?thesis
    unfolding checkout_eq [OF u i l] h
    by (simp add: checkout_saga_def with_items_def partition_of_example)
qed

section \<open>The claims\<close>

subsection \<open>C1: total_cost and the prices of the items\<close>

lemma call_completes:
  assumes "stored_items r oid = Some (map fst entries)"
    and "stored_total_cost r oid = Some cost"
    and "get_item_price stock = Inr (Some p)"
    and "case opn of AddItem i \<Rightarrow> True | RemoveItem i \<Rightarrow> i \<in> set (map fst entries)"
  shows "snd (fst (call_handler r oid (opn, stock))) = 200"
    and "spec_entries r oid entries [(opn, stock)] =
           (case opn of
              AddItem i \<Rightarrow> entries @ [(i, p)]
            | RemoveItem i \<Rightarrow> remove_first i entries)"
    and "stored_items (snd (call_handler r oid (opn, stock))) oid =
           Some (map fst (case opn of
                            AddItem i \<Rightarrow> entries @ [(i, p)]
                          | RemoveItem i \<Rightarrow> remove_first i entries))"
    and "stored_total_cost (snd (call_handler r oid (opn, stock))) oid =
           Some (case opn of AddItem i \<Rightarrow> cost + p | RemoveItem i \<Rightarrow> cost - p)"
proof -
  show s: "snd (fst (call_handler r oid (opn, stock))) = 200"
    unfolding call_handler_status [OF assms(1,2)] using assms(3,4)
    by (simp split: op.splits)
  have q: "quoted_price stock = p"
    by (simp add: quoted_price_def assms(3))
  show "spec_entries r oid entries [(opn, stock)] =
           (case opn of
              AddItem i \<Rightarrow> entries @ [(i, p)]
            | RemoveItem i \<Rightarrow> remove_first i entries)"
    unfolding spec_entries_single q using s by simp
  have f: "fields_after (map fst entries, cost) [(opn, stock)] =
      (map fst (case opn of
                  AddItem i \<Rightarrow> entries @ [(i, p)]
                | RemoveItem i \<Rightarrow> remove_first i entries),
       case opn of AddItem i \<Rightarrow> cost + p | RemoveItem i \<Rightarrow> cost - p)"
    using assms(3,4) by (cases opn) (simp_all add: remove_first_fst)
  show "stored_items (snd (call_handler r oid (opn, stock))) oid =
           Some (map fst (case opn of
                            AddItem i \<Rightarrow> entries @ [(i, p)]
                          | RemoveItem i \<Rightarrow> remove_first i entries))"
    unfolding call_handler_fields(1) [OF assms(1,2)] f by simp
  show "stored_total_cost (snd (call_handler r oid (opn, stock))) oid =
           Some (case opn of AddItem i \<Rightarrow> cost + p | RemoveItem i \<Rightarrow> cost - p)"
    unfolding call_handler_fields(2) [OF assms(1,2)] f by simp
qed

text \<open>
  C1, as amended. Take any order made by \<^verbatim>\<open>create\<close> and any sequence of \<^verbatim>\<open>addItem\<close> and
  \<^verbatim>\<open>removeItem\<close> calls on it, completed or not, in which every \<^verbatim>\<open>removeItem\<close> that
  completes is quoted the price at which the entry it removes was inserted. After each
  call of the sequence, \<^verbatim>\<open>items\<close> holds the items of the entries and \<^verbatim>\<open>total_cost\<close> is the
  sum of the prices the entries had when they were inserted. The entries are those the
  answers of the stock service give: \<^verbatim>\<open>addItem\<close> with a price has appended the item and
  added the price, \<^verbatim>\<open>removeItem\<close> with a price has removed the first occurrence of an item
  that was there and subtracted the price.
\<close>

theorem total_cost_sums_insertion_prices:
  assumes "removals_at_insertion_price (snd (create_order r order_id user_id)) order_id [] calls"
  shows "stored_items
       (run_calls (snd (create_order r order_id user_id)) order_id (take n calls)) order_id
       = Some (map fst
           (spec_entries (snd (create_order r order_id user_id)) order_id [] (take n calls))) \<and>
     stored_total_cost
       (run_calls (snd (create_order r order_id user_id)) order_id (take n calls)) order_id
       = Some (sum_list (map snd
           (spec_entries (snd (create_order r order_id user_id)) order_id [] (take n calls)))) \<and>
     (map fst (spec_entries (snd (create_order r order_id user_id)) order_id [] (take n calls)),
      sum_list (map snd
        (spec_entries (snd (create_order r order_id user_id)) order_id [] (take n calls))))
       = fields_after ([], 0) (take n calls)"
proof -
  let ?r = "snd (create_order r order_id user_id)"
  have i: "stored_items ?r order_id = Some (map fst [])"
    and c: "stored_total_cost ?r order_id = Some (sum_list (map snd []))"
    by (simp_all add: stored_created)
  have h: "removals_at_insertion_price ?r order_id [] (take n calls)"
    by (rule removals_take [OF assms])
  have e: "fields_after ([], 0) (take n calls) =
     (map fst (spec_entries ?r order_id [] (take n calls)),
      sum_list (map snd (spec_entries ?r order_id [] (take n calls))))"
    using run_calls_entries [OF i c h] by simp
  have "stored_items (run_calls ?r order_id (take n calls)) order_id =
          Some (fst (fields_after ([], 0) (take n calls))) \<and>
        stored_total_cost (run_calls ?r order_id (take n calls)) order_id =
          Some (snd (fields_after ([], 0) (take n calls)))"
    by (rule run_calls_fields [OF stored_created])
  then show ?thesis
    unfolding e by simp
qed

text \<open>
  An item added at 5 and again at 7, then removed while the stock service quotes 5: the
  entry inserted at 5 goes and the one inserted at 7 stays.
\<close>

theorem total_cost_sums_insertion_prices_witness:
  "removals_at_insertion_price (snd (create_order empty_redis ''o'' ''u'')) ''o'' []
     [(AddItem ''a'', Response 200 (Some 5)), (AddItem ''a'', Response 200 (Some 7)),
      (RemoveItem ''a'', Response 200 (Some 5))] \<and>
   spec_entries (snd (create_order empty_redis ''o'' ''u'')) ''o'' []
     [(AddItem ''a'', Response 200 (Some 5)), (AddItem ''a'', Response 200 (Some 7)),
      (RemoveItem ''a'', Response 200 (Some 5))] = [(''a'', 7)] \<and>
   stored_items (run_calls (snd (create_order empty_redis ''o'' ''u'')) ''o''
     [(AddItem ''a'', Response 200 (Some 5)), (AddItem ''a'', Response 200 (Some 7)),
      (RemoveItem ''a'', Response 200 (Some 5))]) ''o'' = Some [''a''] \<and>
   stored_total_cost (run_calls (snd (create_order empty_redis ''o'' ''u'')) ''o''
     [(AddItem ''a'', Response 200 (Some 5)), (AddItem ''a'', Response 200 (Some 7)),
      (RemoveItem ''a'', Response 200 (Some 5))]) ''o'' = Some 7"
proof -
  let ?r0 = "snd (create_order empty_redis ''o'' ''u'')"
  let ?c1 = "(AddItem ''a'', Response 200 (Some 5))"
  let ?c2 = "(AddItem ''a'', Response 200 (Some 7))"
  let ?c3 = "(RemoveItem ''a'', Response 200 (Some 5))"
  let ?r1 = "snd (call_handler ?r0 ''o'' ?c1)"
  let ?r2 = "snd (call_handler ?r1 ''o'' ?c2)"
  have p: "get_item_price (Response 200 (Some 5)) = Inr (Some 5)"
    "get_item_price (Response 200 (Some 7)) = Inr (Some 7)"
    by (simp_all add: get_item_price_def)
  have q: "quoted_price (Response 200 (Some 5)) = 5"
    by (simp add: quoted_price_def p)
  have i0: "stored_items ?r0 ''o'' = Some (map fst [])"
    and c0: "stored_total_cost ?r0 ''o'' = Some 0"
    by (simp_all add: stored_created)
  have e1: "spec_entries ?r0 ''o'' [] [?c1] = [(''a'', 5)]"
    using call_completes(2) [OF i0 c0 p(1), of "AddItem ''a''"] by simp
  have i1: "stored_items ?r1 ''o'' = Some (map fst [(''a'', 5 :: int)])"
    and c1: "stored_total_cost ?r1 ''o'' = Some 5"
    using call_completes(3,4) [OF i0 c0 p(1), of "AddItem ''a''"] by simp_all
  have e2: "spec_entries ?r1 ''o'' [(''a'', 5)] [?c2] = [(''a'', 5), (''a'', 7)]"
    using call_completes(2) [OF i1 c1 p(2), of "AddItem ''a''"] by simp
  have i2: "stored_items ?r2 ''o'' = Some (map fst [(''a'', 5 :: int), (''a'', 7)])"
    and c2: "stored_total_cost ?r2 ''o'' = Some 12"
    using call_completes(3,4) [OF i1 c1 p(2), of "AddItem ''a''"] by simp_all
  have s3: "snd (fst (call_handler ?r2 ''o'' ?c3)) = 200"
    using call_completes(1) [OF i2 c2 p(1), of "RemoveItem ''a''"] by simp
  have "removals_at_insertion_price ?r0 ''o'' [] [?c1]"
    unfolding removals_single by simp
  moreover have "removals_at_insertion_price ?r1 ''o'' [(''a'', 5)] [?c2]"
    unfolding removals_single by simp
  moreover have "removals_at_insertion_price ?r2 ''o'' [(''a'', 5), (''a'', 7)] [?c3]"
    unfolding removals_single by (simp add: q del: call_handler.simps)
  ultimately have h: "removals_at_insertion_price ?r0 ''o'' [] [?c1, ?c2, ?c3]"
    unfolding removals_Cons e1 e2 by simp
  have t: "take 3 [?c1, ?c2, ?c3] = [?c1, ?c2, ?c3]"
    by simp
  have f: "fields_after ([], 0) [?c1, ?c2, ?c3] = ([''a''], 7)"
    by (simp add: p)
  have "stored_items (run_calls ?r0 ''o'' [?c1, ?c2, ?c3]) ''o''
       = Some (map fst (spec_entries ?r0 ''o'' [] [?c1, ?c2, ?c3])) \<and>
     stored_total_cost (run_calls ?r0 ''o'' [?c1, ?c2, ?c3]) ''o''
       = Some (sum_list (map snd (spec_entries ?r0 ''o'' [] [?c1, ?c2, ?c3]))) \<and>
     (map fst (spec_entries ?r0 ''o'' [] [?c1, ?c2, ?c3]),
      sum_list (map snd (spec_entries ?r0 ''o'' [] [?c1, ?c2, ?c3]))) = ([''a''], 7)"
    using total_cost_sums_insertion_prices [OF h, of 3] unfolding t f .
  moreover have "spec_entries ?r0 ''o'' [] [?c1, ?c2, ?c3] = [(''a'', 7)]"
  proof -
    have "spec_entries ?r0 ''o'' [] [?c1, ?c2, ?c3] =
        spec_entries ?r2 ''o'' [(''a'', 5), (''a'', 7)] [?c3]"
      unfolding spec_entries_Cons [of ?r0 "''o''" "[]" ?c1 "[?c2, ?c3]"] e1
        spec_entries_Cons [of ?r1 "''o''" "[(''a'', 5)]" ?c2 "[?c3]"] e2 ..
    also have "\<dots> = [(''a'', 7)]"
      using call_completes(2) [OF i2 c2 p(1), of "RemoveItem ''a''"] by simp
    finally show ?thesis .
  qed
  ultimately show ?thesis
    using h by simp
qed

text \<open>
  C1 as the specification states it fails when a price changes: \<^verbatim>\<open>removeItem\<close> subtracts
  the price the stock service quotes during the removal, not the one the entry was
  inserted at. An item added at 5 and removed at 7 leaves no entry and a total of -2.
\<close>

theorem total_cost_insertion_prices_counterexample:
  "stored_total_cost (run_calls (snd (create_order empty_redis ''o'' ''u'')) ''o''
      [(AddItem ''a'', Response 200 (Some 5)), (RemoveItem ''a'', Response 200 (Some 7))]) ''o''
     \<noteq> Some (sum_list (map snd
         (spec_entries (snd (create_order empty_redis ''o'' ''u'')) ''o'' []
            [(AddItem ''a'', Response 200 (Some 5)),
             (RemoveItem ''a'', Response 200 (Some 7))]))) \<and>
   stored_items (run_calls (snd (create_order empty_redis ''o'' ''u'')) ''o''
      [(AddItem ''a'', Response 200 (Some 5)), (RemoveItem ''a'', Response 200 (Some 7))]) ''o''
     = Some [] \<and>
   spec_entries (snd (create_order empty_redis ''o'' ''u'')) ''o'' []
      [(AddItem ''a'', Response 200 (Some 5)), (RemoveItem ''a'', Response 200 (Some 7))] = [] \<and>
   stored_total_cost (run_calls (snd (create_order empty_redis ''o'' ''u'')) ''o''
      [(AddItem ''a'', Response 200 (Some 5)), (RemoveItem ''a'', Response 200 (Some 7))]) ''o''
     = Some (- 2)"
proof -
  let ?r0 = "snd (create_order empty_redis ''o'' ''u'')"
  let ?c1 = "(AddItem ''a'', Response 200 (Some 5))"
  let ?c2 = "(RemoveItem ''a'', Response 200 (Some 7))"
  let ?r1 = "snd (call_handler ?r0 ''o'' ?c1)"
  have p: "get_item_price (Response 200 (Some 5)) = Inr (Some 5)"
    "get_item_price (Response 200 (Some 7)) = Inr (Some 7)"
    by (simp_all add: get_item_price_def)
  have i0: "stored_items ?r0 ''o'' = Some (map fst [])"
    and c0: "stored_total_cost ?r0 ''o'' = Some 0"
    by (simp_all add: stored_created)
  have e1: "spec_entries ?r0 ''o'' [] [?c1] = [(''a'', 5)]"
    using call_completes(2) [OF i0 c0 p(1), of "AddItem ''a''"] by simp
  have i1: "stored_items ?r1 ''o'' = Some (map fst [(''a'', 5 :: int)])"
    and c1: "stored_total_cost ?r1 ''o'' = Some 5"
    using call_completes(3,4) [OF i0 c0 p(1), of "AddItem ''a''"] by simp_all
  have e2: "spec_entries ?r1 ''o'' [(''a'', 5)] [?c2] = []"
    using call_completes(2) [OF i1 c1 p(2), of "RemoveItem ''a''"] by simp
  have e: "spec_entries ?r0 ''o'' [] [?c1, ?c2] = []"
    unfolding spec_entries_Cons [of ?r0 "''o''" "[]" ?c1 "[?c2]"] e1 e2 ..
  have "stored_items (run_calls ?r0 ''o'' [?c1, ?c2]) ''o'' =
          Some (fst (fields_after ([], 0) [?c1, ?c2])) \<and>
        stored_total_cost (run_calls ?r0 ''o'' [?c1, ?c2]) ''o'' =
          Some (snd (fields_after ([], 0) [?c1, ?c2]))"
    by (rule run_calls_fields [OF stored_created])
  moreover have "fields_after ([], 0) [?c1, ?c2] = ([], - 2)"
    by (simp add: p)
  ultimately have "stored_items (run_calls ?r0 ''o'' [?c1, ?c2]) ''o'' = Some []"
    "stored_total_cost (run_calls ?r0 ''o'' [?c1, ?c2]) ''o'' = Some (- 2)"
    by simp_all
  then show ?thesis
    unfolding e by simp
qed

subsection \<open>C2: the partition checkout listens on\<close>

text \<open>
  C2 fails on the code. \<^verbatim>\<open>checkout\<close> hashes the bytes of the correlation id itself; the
  producer's key serialiser wraps the id in JSON quotes first, so the default partitioner
  hashes other bytes. For the id below and a topic of two partitions, checkout assigns
  its consumer to partition 0 and the partitioner chooses partition 1.
\<close>

theorem checkout_listens_off_the_producers_partition:
  "ConsumerAssigned ''order_result_topic'' 0 \<in>
     set (snd (checkout (snd (create_order empty_redis ''o'' ''u'')) ''o''
       ''7d444840-9dc0-41e6-96a7-c288e1c2fc59''
       \<lparr>brokers_available = True, partitions_for_topic = Some 2, send_fails = [],
        messages =
          [Delivery 9000 (JStr ''5a2a1c1e-0b1f-4c7e-9d5e-3f6f0a4b7c21'')
             (JObj [(''status'', JStr ''success'')]),
           Delivery 18000 (JStr ''7d444840-9dc0-41e6-96a7-c288e1c2fc59'')
             (JObj [(''status'', JStr ''success'')])]\<rparr>)) \<and>
   partitionIndex ''7d444840-9dc0-41e6-96a7-c288e1c2fc59'' 2 = 0 \<and>
   producer_partition ''7d444840-9dc0-41e6-96a7-c288e1c2fc59'' 2 = 1"
  unfolding late_reply_run by (simp add: partition_of_example)

subsection \<open>C3: the commit and the watch\<close>

text \<open>
  C3 fails on the code: the first \<^verbatim>\<open>execute\<close> ends the watch, so the second one commits
  whatever another request has written in between. For every record that can be read,
  every price and every concurrent request \<open>other\<close>, \<^verbatim>\<open>addItem\<close> answers 200 and stores
  the items and the total it computed from the snapshot it read before \<open>other\<close> ran.
\<close>

theorem add_item_commit_ignores_concurrent_write:
  assumes "stored_items r order_id = Some items"
    and "stored_total_cost r order_id = Some cost"
    and "get_item_price stock = Inr (Some price)"
  shows "fst (add_item_meanwhile other r order_id item_id stock) = (success_body, 200) \<and>
     stored_items (snd (add_item_meanwhile other r order_id item_id stock)) order_id
       = Some (items @ [item_id]) \<and>
     stored_total_cost (snd (add_item_meanwhile other r order_id item_id stock)) order_id
       = Some (cost + price)"
proof -
  obtain itext ctext where f:
    "map_of (hgetall r (''order:'' @ order_id)) ''items'' = Some itext" "utf8 itext"
    "json_loads itext = Some items"
    "map_of (hgetall r (''order:'' @ order_id)) ''total_cost'' = Some ctext"
    "py_int ctext = Some cost"
    using stored_fields [OF assms(1,2)] by blast
  obtain y where ex: "map_of (hashes r) (''order:'' @ order_id) = Some y"
    using field_exists [OF f(1)] by auto
  have eq: "add_item_meanwhile other r order_id item_id stock =
      ((success_body, 200),
       snd (run_commands
              [HSET (''order:'' @ order_id) ''items'' (json_dumps (items @ [item_id])),
               HSET (''order:'' @ order_id) ''total_cost'' (int_repr (cost + price))]
              (other r)))"
    unfolding add_item_meanwhile_def add_item_read_eq add_item_write_def
    using f ex assms(3)
    by (simp add: truthy_def load_items_def load_total_cost_def getitem_def decode_def
        execute_commit split_beta Let_def del: run_commands.simps)
  show ?thesis
    unfolding eq fst_conv snd_conv
    by (intro conjI refl stored_after_commit)
qed

text \<open>
  Two concurrent \<^verbatim>\<open>addItem\<close> calls on a new order: the call for \<^verbatim>\<open>b\<close> completes between
  the two round trips of the call for \<^verbatim>\<open>a\<close>. Both answer 200, and the record ends with
  \<^verbatim>\<open>a\<close> alone.
\<close>

theorem add_item_commit_ignores_concurrent_write_witness:
  "stored_items (snd (create_order empty_redis ''o'' ''u'')) ''o'' = Some [] \<and>
   stored_total_cost (snd (create_order empty_redis ''o'' ''u'')) ''o'' = Some 0 \<and>
   get_item_price (Response 200 (Some 5)) = Inr (Some 5) \<and>
   stored_items (snd (add_item (snd (create_order empty_redis ''o'' ''u'')) ''o'' ''b''
                        (Response 200 (Some 3)))) ''o'' = Some [''b''] \<and>
   fst (add_item_meanwhile (\<lambda>r. snd (add_item r ''o'' ''b'' (Response 200 (Some 3))))
          (snd (create_order empty_redis ''o'' ''u'')) ''o'' ''a'' (Response 200 (Some 5)))
     = (success_body, 200) \<and>
   stored_items (snd (add_item_meanwhile (\<lambda>r. snd (add_item r ''o'' ''b'' (Response 200 (Some 3))))
          (snd (create_order empty_redis ''o'' ''u'')) ''o'' ''a'' (Response 200 (Some 5)))) ''o''
     = Some [''a''] \<and>
   stored_total_cost (snd (add_item_meanwhile
          (\<lambda>r. snd (add_item r ''o'' ''b'' (Response 200 (Some 3))))
          (snd (create_order empty_redis ''o'' ''u'')) ''o'' ''a'' (Response 200 (Some 5)))) ''o''
     = Some 5"
proof -
  let ?r0 = "snd (create_order empty_redis ''o'' ''u'')"
  have i: "stored_items ?r0 ''o'' = Some []" and c: "stored_total_cost ?r0 ''o'' = Some 0"
    by (rule stored_created)+
  have p: "get_item_price (Response 200 (Some 5)) = Inr (Some 5)"
    and p3: "get_item_price (Response 200 (Some 3)) = Inr (Some 3)"
    by (simp_all add: get_item_price_def)
  have b: "stored_items (snd (add_item ?r0 ''o'' ''b'' (Response 200 (Some 3)))) ''o'' = Some [''b'']"
    using add_item_completes(2) [OF i c p3, of "''b''"] by simp
  show ?thesis
    using i c p b
      add_item_commit_ignores_concurrent_write [OF i c p,
        of "\<lambda>r. snd (add_item r ''o'' ''b'' (Response 200 (Some 3)))" "''a''"]
    by simp
qed

subsection \<open>C4: the wait for the reply\<close>

text \<open>
  C4 fails on the code. The deadline of line 288 is tested only after a record whose key
  does not match, and the iterator's own timeout starts again with every record. Here
  another saga's reply arrives after 9 seconds and the matching reply after 18 seconds,
  past the deadline; checkout answers 200 instead of "Wait too long, quit".
\<close>

theorem checkout_accepts_reply_after_deadline:
  "fst (checkout (snd (create_order empty_redis ''o'' ''u'')) ''o''
       ''7d444840-9dc0-41e6-96a7-c288e1c2fc59''
       \<lparr>brokers_available = True, partitions_for_topic = Some 2, send_fails = [],
        messages =
          [Delivery 9000 (JStr ''5a2a1c1e-0b1f-4c7e-9d5e-3f6f0a4b7c21'')
             (JObj [(''status'', JStr ''success'')]),
           Delivery 18000 (JStr ''7d444840-9dc0-41e6-96a7-c288e1c2fc59'')
             (JObj [(''status'', JStr ''success'')])]\<rparr>)
     = (success_body, 200)"
  unfolding late_reply_run by simp

subsection \<open>C5: what checkout releases\<close>

text \<open>
  C5, as amended. On every exit path the last call of \<^verbatim>\<open>checkout\<close> is \<^verbatim>\<open>pipe.unwatch()\<close>,
  and on no path does it close the consumer it created.
\<close>

theorem checkout_never_closes_consumer:
  "ConsumerClosed \<notin> set (snd (checkout r order_id global_transaction_id k)) \<and>
   last (snd (checkout r order_id global_transaction_id k)) = PipeUnwatch"
proof -
  consider "snd (checkout r order_id global_transaction_id k) = [PipeUnwatch]"
    | l od where "snd (checkout r order_id global_transaction_id k) =
        snd (checkout_saga global_transaction_id k l od) @ [PipeUnwatch]"
    using checkout_trace [of r order_id global_transaction_id k] by blast
  then show ?thesis
  proof cases
    case 1
    then show ?thesis by simp
  next
    case 2
    then show ?thesis by (simp add: saga_never_closes)
  qed
qed

text \<open>
  C5 as the specification states it fails: in the run above a consumer is created and
  never closed.
\<close>

theorem checkout_never_closes_consumer_counterexample:
  "ConsumerCreated \<in>
     set (snd (checkout (snd (create_order empty_redis ''o'' ''u'')) ''o''
       ''7d444840-9dc0-41e6-96a7-c288e1c2fc59''
       \<lparr>brokers_available = True, partitions_for_topic = Some 2, send_fails = [],
        messages =
          [Delivery 9000 (JStr ''5a2a1c1e-0b1f-4c7e-9d5e-3f6f0a4b7c21'')
             (JObj [(''status'', JStr ''success'')]),
           Delivery 18000 (JStr ''7d444840-9dc0-41e6-96a7-c288e1c2fc59'')
             (JObj [(''status'', JStr ''success'')])]\<rparr>)) \<and>
   ConsumerClosed \<notin>
     set (snd (checkout (snd (create_order empty_redis ''o'' ''u'')) ''o''
       ''7d444840-9dc0-41e6-96a7-c288e1c2fc59''
       \<lparr>brokers_available = True, partitions_for_topic = Some 2, send_fails = [],
        messages =
          [Delivery 9000 (JStr ''5a2a1c1e-0b1f-4c7e-9d5e-3f6f0a4b7c21'')
             (JObj [(''status'', JStr ''success'')]),
           Delivery 18000 (JStr ''7d444840-9dc0-41e6-96a7-c288e1c2fc59'')
             (JObj [(''status'', JStr ''success'')])]\<rparr>))"
  unfolding late_reply_run by simp

subsection \<open>C6: subscribe, then publish\<close>

text \<open>
  C6. In every execution of \<^verbatim>\<open>checkout\<close>, whatever Redis and Kafka do, each message it
  publishes comes after the call that assigns the consumer to the selected partition of
  \<^verbatim>\<open>order_result_topic\<close>.
\<close>

theorem subscription_before_publish:
  assumes "snd (checkout r order_id global_transaction_id k) =
             pre @ ProducerSend topic key msg # post"
  shows "\<exists>n. partitions_for_topic k = Some n \<and>
           ConsumerAssigned ''order_result_topic'' (partitionIndex global_transaction_id n)
             \<in> set pre"
proof -
  consider "snd (checkout r order_id global_transaction_id k) = [PipeUnwatch]"
    | l od where "snd (checkout r order_id global_transaction_id k) =
        snd (checkout_saga global_transaction_id k l od) @ [PipeUnwatch]"
    using checkout_trace [of r order_id global_transaction_id k] by blast
  then show ?thesis
  proof cases
    case 1
    then show ?thesis
      using assms by (auto simp: append_eq_Cons_conv)
  next
    case 2
    show ?thesis
      using saga_trace_cases [of global_transaction_id k l od] assms
      unfolding 2
      by (elim disjE exE conjE) (auto simp: Cons_eq_append_conv)
  qed
qed

theorem subscription_before_publish_witness:
  "snd (checkout (snd (create_order empty_redis ''o'' ''u'')) ''o''
       ''7d444840-9dc0-41e6-96a7-c288e1c2fc59''
       \<lparr>brokers_available = True, partitions_for_topic = Some 2, send_fails = [],
        messages =
          [Delivery 9000 (JStr ''5a2a1c1e-0b1f-4c7e-9d5e-3f6f0a4b7c21'')
             (JObj [(''status'', JStr ''success'')]),
           Delivery 18000 (JStr ''7d444840-9dc0-41e6-96a7-c288e1c2fc59'')
             (JObj [(''status'', JStr ''success'')])]\<rparr>) =
     [ConsumerCreated, ConsumerAssigned ''order_result_topic'' 0] @
     ProducerSend ''stock_check_topic'' ''7d444840-9dc0-41e6-96a7-c288e1c2fc59''
       (JObj [(''affected_items'', JArr []), (''action'', JStr ''remove''),
              (''is_roll_back'', JStr ''false'')]) #
     [ProducerSend ''payment_processing_topic'' ''7d444840-9dc0-41e6-96a7-c288e1c2fc59''
       (JObj [(''order_data'',
               JObj [(''order_id'', JStr ''o''), (''paid'', JStr ''False''),
                     (''items'', JArr []), (''user_id'', JStr ''u''),
                     (''total_cost'', JStr ''0'')]),
              (''action'', JStr ''pay''), (''is_roll_back'', JStr ''false'')]),
      PipeUnwatch] \<and>
   (\<exists>n. partitions_for_topic
          \<lparr>brokers_available = True, partitions_for_topic = Some 2, send_fails = [],
        messages =
          [Delivery 9000 (JStr ''5a2a1c1e-0b1f-4c7e-9d5e-3f6f0a4b7c21'')
             (JObj [(''status'', JStr ''success'')]),
           Delivery 18000 (JStr ''7d444840-9dc0-41e6-96a7-c288e1c2fc59'')
             (JObj [(''status'', JStr ''success'')])]\<rparr> = Some n \<and>
      ConsumerAssigned ''order_result_topic''
          (partitionIndex ''7d444840-9dc0-41e6-96a7-c288e1c2fc59'' n)
        \<in> set [ConsumerCreated, ConsumerAssigned ''order_result_topic'' 0])"
proof -
  have eq: "snd (checkout (snd (create_order empty_redis ''o'' ''u'')) ''o''
       ''7d444840-9dc0-41e6-96a7-c288e1c2fc59''
       \<lparr>brokers_available = True, partitions_for_topic = Some 2, send_fails = [],
        messages =
          [Delivery 9000 (JStr ''5a2a1c1e-0b1f-4c7e-9d5e-3f6f0a4b7c21'')
             (JObj [(''status'', JStr ''success'')]),
           Delivery 18000 (JStr ''7d444840-9dc0-41e6-96a7-c288e1c2fc59'')
             (JObj [(''status'', JStr ''success'')])]\<rparr>) =
     [ConsumerCreated, ConsumerAssigned ''order_result_topic'' 0] @
     ProducerSend ''stock_check_topic'' ''7d444840-9dc0-41e6-96a7-c288e1c2fc59''
       (JObj [(''affected_items'', JArr []), (''action'', JStr ''remove''),
              (''is_roll_back'', JStr ''false'')]) #
     [ProducerSend ''payment_processing_topic'' ''7d444840-9dc0-41e6-96a7-c288e1c2fc59''
       (JObj [(''order_data'',
               JObj [(''order_id'', JStr ''o''), (''paid'', JStr ''False''),
                     (''items'', JArr []), (''user_id'', JStr ''u''),
                     (''total_cost'', JStr ''0'')]),
              (''action'', JStr ''pay''), (''is_roll_back'', JStr ''false'')]),
      PipeUnwatch]"
    unfolding late_reply_run by simp
  show ?thesis
    using eq subscription_before_publish [OF eq] by blast
qed

subsection \<open>C7: removeItem of an item that is not in the order\<close>

text \<open>
  C7, as amended. When the record's \<^verbatim>\<open>items\<close> can be read and do not hold \<^verbatim>\<open>item_id\<close>,
  \<^verbatim>\<open>removeItem\<close> leaves Redis as it was. It answers "Item not in order" (400) when
  the stock service quotes a price for the item, "Item not found" (400) when the
  service does not know the item, and 500 when the call to the service raises.
\<close>

theorem remove_item_absent_item:
  assumes "stored_items r order_id = Some items" and "item_id \<notin> set items"
  shows "remove_item r order_id item_id stock =
     ((case get_item_price stock of
         Inl e \<Rightarrow> (Text e, 500)
       | Inr None \<Rightarrow> (error_body ''Item not found'', 400)
       | Inr (Some p) \<Rightarrow> (error_body ''Item not in order'', 400)), r)"
proof -
  obtain itext where f: "map_of (hgetall r (''order:'' @ order_id)) ''items'' = Some itext"
      "utf8 itext" "json_loads itext = Some items"
    using assms(1) by (auto simp: stored_items_def decode_def split: option.splits if_splits)
  have ex: "hgetall r (''order:'' @ order_id) \<noteq> []"
    using field_exists [OF f(1)] by simp
  show ?thesis
    unfolding remove_item_def remove_item_read_eq remove_item_write_def
    using f ex assms(2)
    by (simp add: truthy_def load_items_def getitem_def decode_def
        split: sum.splits option.splits)
qed

theorem remove_item_absent_item_witness:
  "stored_items (snd (create_order empty_redis ''o'' ''u'')) ''o'' = Some [] \<and>
   ''x'' \<notin> set ([] :: string list) \<and>
   remove_item (snd (create_order empty_redis ''o'' ''u'')) ''o'' ''x'' (Response 200 (Some 3)) =
     ((error_body ''Item not in order'', 400), snd (create_order empty_redis ''o'' ''u''))"
proof -
  have s: "stored_items (snd (create_order empty_redis ''o'' ''u'')) ''o'' = Some []"
    by (rule stored_created)
  have x: "''x'' \<notin> set ([] :: string list)"
    by simp
  show ?thesis
    using s remove_item_absent_item [OF s x, of "Response 200 (Some 3)"]
    by (simp add: get_item_price_def)
qed

text \<open>
  C7 as the specification states it fails for an item the stock service does not know:
  the answer is "Item not found", not "Item not in order".
\<close>

theorem remove_item_absent_item_counterexample:
  "stored_items (snd (create_order empty_redis ''o'' ''u'')) ''o'' = Some [] \<and>
   fst (remove_item (snd (create_order empty_redis ''o'' ''u'')) ''o'' ''x'' (Response 404 None))
     = (error_body ''Item not found'', 400) \<and>
   (error_body ''Item not found'', 400 :: nat) \<noteq> (error_body ''Item not in order'', 400)"
proof -
  have fresh: "map_of (hashes empty_redis) (''order:'' @ ''o'') = None"
    by (simp add: empty_redis_def)
  have h: "hgetall (snd (create_order empty_redis ''o'' ''u'')) (''order:'' @ ''o'') =
     [(''order_id'', ''o''), (''paid'', ''False''), (''items'', ''[]''), (''user_id'', ''u''),
      (''total_cost'', ''0'')]"
    by (rule hgetall_fresh_created [OF fresh])
  have "remove_item (snd (create_order empty_redis ''o'' ''u'')) ''o'' ''x'' (Response 404 None)
        = ((error_body ''Item not found'', 400), snd (create_order empty_redis ''o'' ''u''))"
    unfolding remove_item_def Let_def remove_item_read_eq remove_item_write_def h
    by (simp add: truthy_def get_item_price_def)
  then show ?thesis
    using stored_created(1) [of empty_redis "''o''" "''u''"] by (simp add: error_body_def)
qed

subsection \<open>C8: the roll-back field of the published messages\<close>

text \<open>
  C8, as amended. Every message \<^verbatim>\<open>checkout\<close> publishes has the correlation id as its key
  and a field \<^verbatim>\<open>is_roll_back\<close> whose value is the string \<^verbatim>\<open>"false"\<close>; it has no field
  \<^verbatim>\<open>is_rollback\<close>.
\<close>

theorem published_messages_carry_is_roll_back:
  assumes "ProducerSend topic key msg \<in> set (snd (checkout r order_id global_transaction_id k))"
  shows "key = global_transaction_id \<and>
     json_get msg ''is_roll_back'' = Some (JStr ''false'') \<and>
     json_get msg ''is_rollback'' = None"
proof -
  consider "snd (checkout r order_id global_transaction_id k) = [PipeUnwatch]"
    | l od where "snd (checkout r order_id global_transaction_id k) =
        snd (checkout_saga global_transaction_id k l od) @ [PipeUnwatch]"
    using checkout_trace [of r order_id global_transaction_id k] by blast
  then show ?thesis
  proof cases
    case 1
    then show ?thesis
      using assms by simp
  next
    case 2
    show ?thesis
      using saga_trace_cases [of global_transaction_id k l od] assms
      unfolding 2
      by (elim disjE exE conjE) auto
  qed
qed

theorem published_messages_carry_is_roll_back_witness:
  "ProducerSend ''payment_processing_topic'' ''7d444840-9dc0-41e6-96a7-c288e1c2fc59''
       (JObj [(''order_data'',
               JObj [(''order_id'', JStr ''o''), (''paid'', JStr ''False''),
                     (''items'', JArr []), (''user_id'', JStr ''u''),
                     (''total_cost'', JStr ''0'')]),
              (''action'', JStr ''pay''), (''is_roll_back'', JStr ''false'')])
     \<in> set (snd (checkout (snd (create_order empty_redis ''o'' ''u'')) ''o''
       ''7d444840-9dc0-41e6-96a7-c288e1c2fc59''
       \<lparr>brokers_available = True, partitions_for_topic = Some 2, send_fails = [],
        messages =
          [Delivery 9000 (JStr ''5a2a1c1e-0b1f-4c7e-9d5e-3f6f0a4b7c21'')
             (JObj [(''status'', JStr ''success'')]),
           Delivery 18000 (JStr ''7d444840-9dc0-41e6-96a7-c288e1c2fc59'')
             (JObj [(''status'', JStr ''success'')])]\<rparr>)) \<and>
   json_get (JObj [(''order_data'',
               JObj [(''order_id'', JStr ''o''), (''paid'', JStr ''False''),
                     (''items'', JArr []), (''user_id'', JStr ''u''),
                     (''total_cost'', JStr ''0'')]),
              (''action'', JStr ''pay''), (''is_roll_back'', JStr ''false'')]) ''is_roll_back'' = Some (JStr ''false'') \<and>
   json_get (JObj [(''order_data'',
               JObj [(''order_id'', JStr ''o''), (''paid'', JStr ''False''),
                     (''items'', JArr []), (''user_id'', JStr ''u''),
                     (''total_cost'', JStr ''0'')]),
              (''action'', JStr ''pay''), (''is_roll_back'', JStr ''false'')]) ''is_rollback'' = None"
proof -
  have m: "ProducerSend ''payment_processing_topic'' ''7d444840-9dc0-41e6-96a7-c288e1c2fc59''
       (JObj [(''order_data'',
               JObj [(''order_id'', JStr ''o''), (''paid'', JStr ''False''),
                     (''items'', JArr []), (''user_id'', JStr ''u''),
                     (''total_cost'', JStr ''0'')]),
              (''action'', JStr ''pay''), (''is_roll_back'', JStr ''false'')])
     \<in> set (snd (checkout (snd (create_order empty_redis ''o'' ''u'')) ''o''
       ''7d444840-9dc0-41e6-96a7-c288e1c2fc59''
       \<lparr>brokers_available = True, partitions_for_topic = Some 2, send_fails = [],
        messages =
          [Delivery 9000 (JStr ''5a2a1c1e-0b1f-4c7e-9d5e-3f6f0a4b7c21'')
             (JObj [(''status'', JStr ''success'')]),
           Delivery 18000 (JStr ''7d444840-9dc0-41e6-96a7-c288e1c2fc59'')
             (JObj [(''status'', JStr ''success'')])]\<rparr>))"
    unfolding late_reply_run by simp
  show ?thesis
    using m published_messages_carry_is_roll_back [OF m] by blast
qed

text \<open>
  C8 as the specification states it fails: the message to the stock topic has no field
  \<^verbatim>\<open>is_rollback\<close>, and the value of \<^verbatim>\<open>is_roll_back\<close> is a string, not the boolean.
\<close>

theorem published_messages_is_rollback_counterexample:
  "ProducerSend ''stock_check_topic'' ''7d444840-9dc0-41e6-96a7-c288e1c2fc59''
       (JObj [(''affected_items'', JArr []), (''action'', JStr ''remove''),
              (''is_roll_back'', JStr ''false'')])
     \<in> set (snd (checkout (snd (create_order empty_redis ''o'' ''u'')) ''o''
       ''7d444840-9dc0-41e6-96a7-c288e1c2fc59''
       \<lparr>brokers_available = True, partitions_for_topic = Some 2, send_fails = [],
        messages =
          [Delivery 9000 (JStr ''5a2a1c1e-0b1f-4c7e-9d5e-3f6f0a4b7c21'')
             (JObj [(''status'', JStr ''success'')]),
           Delivery 18000 (JStr ''7d444840-9dc0-41e6-96a7-c288e1c2fc59'')
             (JObj [(''status'', JStr ''success'')])]\<rparr>)) \<and>
   json_get (JObj [(''affected_items'', JArr []), (''action'', JStr ''remove''),
              (''is_roll_back'', JStr ''false'')]) ''is_rollback'' = None \<and>
   json_get (JObj [(''affected_items'', JArr []), (''action'', JStr ''remove''),
              (''is_roll_back'', JStr ''false'')]) ''is_roll_back'' = Some (JStr ''false'') \<and>
   JStr ''false'' \<noteq> JBool False"
  unfolding late_reply_run by simp

subsection \<open>C9: removeItem asks for the price first\<close>

text \<open>
  C9. For every existing order and every item, in the order or not, \<^verbatim>\<open>removeItem\<close>
  answers "Item not found" (400) and leaves Redis as it was whenever the stock service
  reports no price for the item.
\<close>

theorem remove_item_asks_price_first:
  assumes "hgetall r (''order:'' @ order_id) \<noteq> []"
    and "get_item_price stock = Inr None"
  shows "remove_item r order_id item_id stock = ((error_body ''Item not found'', 400), r)"
  unfolding remove_item_def remove_item_read_eq remove_item_write_def
  using assms by (simp add: truthy_def)

theorem remove_item_asks_price_first_witness:
  "hgetall \<lparr>hashes = [(''order:o'', [(''order_id'', ''o''), (''paid'', ''False''),
               (''items'', json_dumps [''a'']), (''user_id'', ''u''), (''total_cost'', ''5'')])],
             versions = [(''order:o'', 7)]\<rparr> (''order:'' @ ''o'') \<noteq> [] \<and>
   get_item_price (Response 404 None) = Inr None \<and>
   stored_items \<lparr>hashes = [(''order:o'', [(''order_id'', ''o''), (''paid'', ''False''),
               (''items'', json_dumps [''a'']), (''user_id'', ''u''), (''total_cost'', ''5'')])],
             versions = [(''order:o'', 7)]\<rparr> ''o'' = Some [''a''] \<and>
   remove_item \<lparr>hashes = [(''order:o'', [(''order_id'', ''o''), (''paid'', ''False''),
               (''items'', json_dumps [''a'']), (''user_id'', ''u''), (''total_cost'', ''5'')])],
             versions = [(''order:o'', 7)]\<rparr> ''o'' ''a'' (Response 404 None) =
     ((error_body ''Item not found'', 400),
      \<lparr>hashes = [(''order:o'', [(''order_id'', ''o''), (''paid'', ''False''),
               (''items'', json_dumps [''a'']), (''user_id'', ''u''), (''total_cost'', ''5'')])],
             versions = [(''order:o'', 7)]\<rparr>)"
proof -
  let ?r = "\<lparr>hashes = [(''order:o'', [(''order_id'', ''o''), (''paid'', ''False''),
               (''items'', json_dumps [''a'']), (''user_id'', ''u''), (''total_cost'', ''5'')])],
             versions = [(''order:o'', 7)]\<rparr>"
  have h: "hgetall ?r (''order:'' @ ''o'') \<noteq> []"
    by (simp add: hgetall_def)
  have p: "get_item_price (Response 404 None) = Inr None"
    by (simp add: get_item_price_def)
  have s: "stored_items ?r ''o'' = Some [''a'']"
    by (simp add: stored_items_def hgetall_def json_loads_dumps decode_json_dumps)
  show ?thesis
    using h p s remove_item_asks_price_first [OF h p, of "''a''"] by simp
qed

subsection \<open>C10: what find returns\<close>

text \<open>
  The item id that is the euro sign (U+20AC, the bytes E2 82 AC in UTF-8), as \<^verbatim>\<open>addItem\<close>
  stores it in \<^verbatim>\<open>items\<close>.
\<close>

lemma json_dumps_euro:
  "json_dumps [[CHR 0xE2, CHR 0x82, CHR 0xAC]] =
     [CHR ''['', CHR 0x22, CHR 0x5C, CHR ''u'', CHR ''2'', CHR ''0'', CHR ''a'', CHR ''c'',
      CHR 0x22, CHR '']'']"
proof -
  have "utf8_next [CHR 0xE2, CHR 0x82, CHR 0xAC] = Some (8364, [])"
    by (simp add: utf8_next_def continuation_def)
  then have "codepoints [CHR 0xE2, CHR 0x82, CHR 0xAC] = [8364]"
    by (simp add: codepoints.simps(2))
  moreover have "hex4_digits 8364 = ''20ac''"
  proof -
    have "hexdigit 2 = CHR ''2''" "hexdigit 0 = CHR ''0''" "hexdigit 10 = CHR ''a''"
      "hexdigit 12 = CHR ''c''"
      by code_simp+
    then show ?thesis
      by (simp add: hex4_digits_def)
  qed
  ultimately show ?thesis
    by (simp add: json_dumps_def json_dumps_str_def json_escape_def)
qed

text \<open>
  C10. \<^verbatim>\<open>find\<close> parses \<^verbatim>\<open>items\<close> and nothing else. Whenever it returns an order, every
  field but \<^verbatim>\<open>items\<close> is the stored string and \<^verbatim>\<open>items\<close> is the list read from the stored
  text. It does return one for every record whose fields are UTF-8 and whose \<^verbatim>\<open>items\<close>
  can be read: it answers 200 with the fields in the stored order, \<^verbatim>\<open>items\<close> as the list
  and each other field as the stored string. For an order made by \<^verbatim>\<open>create\<close> under a
  new id, after any sequence of \<^verbatim>\<open>addItem\<close> and \<^verbatim>\<open>removeItem\<close> calls, that is \<^verbatim>\<open>paid\<close> as
  the string \<^verbatim>\<open>"False"\<close>, \<^verbatim>\<open>items\<close> as the list of the items and \<^verbatim>\<open>total_cost\<close> as the
  decimal string of the total; before any call, \<^verbatim>\<open>items\<close> is the empty list and
  \<^verbatim>\<open>total_cost\<close> the string \<^verbatim>\<open>"0"\<close>.
\<close>

theorem find_order_decodes_only_items:
  "(\<forall>order. fst (find_order r order_id) = (Jsonify (JObj order), 200) \<longrightarrow>
      (\<forall>field. field \<noteq> ''items'' \<longrightarrow>
         map_of order field = map_option JStr (map_of (hgetall r (''order:'' @ order_id)) field)) \<and>
      map_of order ''items'' = map_option (\<lambda>xs. JArr (map JStr xs)) (stored_items r order_id)) \<and>
   (distinct (map fst (hgetall r (''order:'' @ order_id))) \<and>
    list_all (\<lambda>(key, value). utf8 key \<and> utf8 value) (hgetall r (''order:'' @ order_id)) \<and>
    stored_items r order_id = Some items \<longrightarrow>
    find_order r order_id =
      ((Jsonify (JObj (map (\<lambda>(key, value).
                              (key, if key = ''items'' then JArr (map JStr items)
                                    else JStr value))
                         (hgetall r (''order:'' @ order_id)))), 200), r)) \<and>
   (map_of (hashes r0) (''order:'' @ order_id) = None \<and> utf8 order_id \<and> utf8 user_id \<longrightarrow>
    fst (find_order (run_calls (snd (create_order r0 order_id user_id)) order_id calls)
           order_id) =
      (Jsonify (JObj [(''order_id'', JStr order_id), (''paid'', JStr ''False''),
                      (''items'', JArr (map JStr (fst (fields_after ([], 0) calls)))),
                      (''user_id'', JStr user_id),
                      (''total_cost'', JStr (int_repr (snd (fields_after ([], 0) calls))))]),
       200) \<and>
    fst (find_order (snd (create_order r0 order_id user_id)) order_id) =
      (Jsonify (JObj [(''order_id'', JStr order_id), (''paid'', JStr ''False''),
                      (''items'', JArr []), (''user_id'', JStr user_id),
                      (''total_cost'', JStr ''0'')]), 200))"
proof (intro conjI allI impI; (elim conjE)?)
  fix order field
  assume f: "fst (find_order r order_id) = (Jsonify (JObj order), 200)"
  then have d: "decode_fields (hgetall r (''order:'' @ order_id)) = Inr order"
    unfolding find_order_eq
    by (auto simp: error_body_def split: if_splits sum.splits)
  show "map_of order ''items'' = map_option (\<lambda>xs. JArr (map JStr xs)) (stored_items r order_id)"
    unfolding stored_items_def decode_fields_map_of [OF d]
    using decode_fields_utf8 [OF d, of "''items''"]
    by (simp add: decode_def split: option.splits)
  assume "field \<noteq> ''items''"
  then show "map_of order field =
      map_option JStr (map_of (hgetall r (''order:'' @ order_id)) field)"
    unfolding decode_fields_map_of [OF d]
    by (simp split: option.splits)
next
  assume d: "distinct (map fst (hgetall r (''order:'' @ order_id)))"
    and u: "list_all (\<lambda>(key, value). utf8 key \<and> utf8 value) (hgetall r (''order:'' @ order_id))"
    and s: "stored_items r order_id = Some items"
  obtain itext where f: "map_of (hgetall r (''order:'' @ order_id)) ''items'' = Some itext"
    "json_loads itext = Some items"
    using s by (auto simp: stored_items_def decode_def split: option.splits if_splits)
  have ne: "hgetall r (''order:'' @ order_id) \<noteq> []"
    using field_exists [OF f(1)] by simp
  have "decode_fields (hgetall r (''order:'' @ order_id)) =
     Inr (map (\<lambda>(key, value).
                 (key, if key = ''items'' then JArr (map JStr items) else JStr value))
            (hgetall r (''order:'' @ order_id)))"
    using f by (intro decode_fields_eq [OF d u]) simp
  then show "find_order r order_id =
      ((Jsonify (JObj (map (\<lambda>(key, value).
                              (key, if key = ''items'' then JArr (map JStr items)
                                    else JStr value))
                         (hgetall r (''order:'' @ order_id)))), 200), r)"
    unfolding find_order_eq using ne by simp
next
  assume fresh: "map_of (hashes r0) (''order:'' @ order_id) = None"
    and u: "utf8 order_id" "utf8 user_id"
  show "fst (find_order (run_calls (snd (create_order r0 order_id user_id)) order_id calls)
           order_id) =
      (Jsonify (JObj [(''order_id'', JStr order_id), (''paid'', JStr ''False''),
                      (''items'', JArr (map JStr (fst (fields_after ([], 0) calls)))),
                      (''user_id'', JStr user_id),
                      (''total_cost'', JStr (int_repr (snd (fields_after ([], 0) calls))))]),
       200)"
    unfolding find_order_record [OF run_calls_record [OF created_record [OF fresh]] u]
    by simp
next
  assume fresh: "map_of (hashes r0) (''order:'' @ order_id) = None"
    and u: "utf8 order_id" "utf8 user_id"
  have z: "int_repr 0 = ''0''"
    by code_simp
  show "fst (find_order (snd (create_order r0 order_id user_id)) order_id) =
      (Jsonify (JObj [(''order_id'', JStr order_id), (''paid'', JStr ''False''),
                      (''items'', JArr []), (''user_id'', JStr user_id),
                      (''total_cost'', JStr ''0'')]), 200)"
    unfolding find_order_record [OF created_record [OF fresh] u] z
    by simp
qed

text \<open>
  A new order to which the item U+20AC has been added at 5: \<^verbatim>\<open>find\<close> answers 200 with the
  item in the list, and the other fields as strings.
\<close>

theorem find_order_decodes_only_items_witness:
  "hgetall (run_calls (snd (create_order empty_redis ''o'' ''u'')) ''o''
       [(AddItem [CHR 0xE2, CHR 0x82, CHR 0xAC], Response 200 (Some 5))]) (''order:'' @ ''o'') =
     [(''order_id'', ''o''), (''paid'', ''False''),
      (''items'', [CHR ''['', CHR 0x22, CHR 0x5C, CHR ''u'', CHR ''2'', CHR ''0'', CHR ''a'',
                   CHR ''c'', CHR 0x22, CHR '']'']),
      (''user_id'', ''u''), (''total_cost'', ''5'')] \<and>
   distinct (map fst (hgetall (run_calls (snd (create_order empty_redis ''o'' ''u'')) ''o''
       [(AddItem [CHR 0xE2, CHR 0x82, CHR 0xAC], Response 200 (Some 5))]) (''order:'' @ ''o''))) \<and>
   list_all (\<lambda>(key, value). utf8 key \<and> utf8 value)
     (hgetall (run_calls (snd (create_order empty_redis ''o'' ''u'')) ''o''
       [(AddItem [CHR 0xE2, CHR 0x82, CHR 0xAC], Response 200 (Some 5))]) (''order:'' @ ''o'')) \<and>
   stored_items (run_calls (snd (create_order empty_redis ''o'' ''u'')) ''o''
       [(AddItem [CHR 0xE2, CHR 0x82, CHR 0xAC], Response 200 (Some 5))]) ''o'' =
     Some [[CHR 0xE2, CHR 0x82, CHR 0xAC]] \<and>
   map_of (hashes empty_redis) (''order:'' @ ''o'') = None \<and> utf8 ''o'' \<and> utf8 ''u'' \<and>
   find_order (run_calls (snd (create_order empty_redis ''o'' ''u'')) ''o''
       [(AddItem [CHR 0xE2, CHR 0x82, CHR 0xAC], Response 200 (Some 5))]) ''o'' =
     ((Jsonify (JObj [(''order_id'', JStr ''o''), (''paid'', JStr ''False''),
                      (''items'', JArr [JStr [CHR 0xE2, CHR 0x82, CHR 0xAC]]),
                      (''user_id'', JStr ''u''), (''total_cost'', JStr ''5'')]), 200),
      run_calls (snd (create_order empty_redis ''o'' ''u'')) ''o''
       [(AddItem [CHR 0xE2, CHR 0x82, CHR 0xAC], Response 200 (Some 5))]) \<and>
   fst (find_order (snd (create_order empty_redis ''o'' ''u'')) ''o'') =
     (Jsonify (JObj [(''order_id'', JStr ''o''), (''paid'', JStr ''False''),
                     (''items'', JArr []), (''user_id'', JStr ''u''),
                     (''total_cost'', JStr ''0'')]), 200)"
proof -
  let ?calls = "[(AddItem [CHR 0xE2, CHR 0x82, CHR 0xAC], Response 200 (Some 5))]"
  let ?r1 = "run_calls (snd (create_order empty_redis ''o'' ''u'')) ''o'' ?calls"
  have fresh: "map_of (hashes empty_redis) (''order:'' @ ''o'') = None"
    by (simp add: empty_redis_def)
  have f: "fields_after ([], 0) ?calls = ([[CHR 0xE2, CHR 0x82, CHR 0xAC]], 5)"
    by (simp add: get_item_price_def)
  have five: "int_repr 5 = ''5''"
    by code_simp
  have h: "hgetall ?r1 (''order:'' @ ''o'') =
     [(''order_id'', ''o''), (''paid'', ''False''),
      (''items'', json_dumps [[CHR 0xE2, CHR 0x82, CHR 0xAC]]),
      (''user_id'', ''u''), (''total_cost'', int_repr 5)]"
    using run_calls_record [OF created_record [OF fresh], of "''u''" ?calls] unfolding f
    by simp
  have s: "stored_items ?r1 ''o'' = Some [[CHR 0xE2, CHR 0x82, CHR 0xAC]]"
    by (rule record_readable(1) [OF h])
  have d: "distinct (map fst (hgetall ?r1 (''order:'' @ ''o'')))"
    unfolding h by simp
  have u: "list_all (\<lambda>(key, value). utf8 key \<and> utf8 value) (hgetall ?r1 (''order:'' @ ''o''))"
    unfolding h
    by (simp add: utf8_ascii ascii_json_dumps ascii_int_repr) (simp add: utf8_ascii ascii_def)
  have a: "utf8 ''o''" "utf8 ''u''"
    by (simp_all add: utf8_ascii ascii_def)
  note t = find_order_decodes_only_items
    [of ?r1 "''o''" "[[CHR 0xE2, CHR 0x82, CHR 0xAC]]" empty_redis "''u''" ?calls]
  have "find_order ?r1 ''o'' =
      ((Jsonify (JObj (map (\<lambda>(key, value).
                              (key, if key = ''items''
                                    then JArr (map JStr [[CHR 0xE2, CHR 0x82, CHR 0xAC]])
                                    else JStr value))
                         (hgetall ?r1 (''order:'' @ ''o'')))), 200), ?r1)"
    using t d u s by blast
  then have one: "find_order ?r1 ''o'' =
     ((Jsonify (JObj [(''order_id'', JStr ''o''), (''paid'', JStr ''False''),
                      (''items'', JArr [JStr [CHR 0xE2, CHR 0x82, CHR 0xAC]]),
                      (''user_id'', JStr ''u''), (''total_cost'', JStr ''5'')]), 200), ?r1)"
    unfolding h five by simp
  have two: "fst (find_order (snd (create_order empty_redis ''o'' ''u'')) ''o'') =
     (Jsonify (JObj [(''order_id'', JStr ''o''), (''paid'', JStr ''False''),
                     (''items'', JArr []), (''user_id'', JStr ''u''),
                     (''total_cost'', JStr ''0'')]), 200)"
    using t fresh a by blast
  have h': "hgetall ?r1 (''order:'' @ ''o'') =
     [(''order_id'', ''o''), (''paid'', ''False''),
      (''items'', [CHR ''['', CHR 0x22, CHR 0x5C, CHR ''u'', CHR ''2'', CHR ''0'', CHR ''a'',
                   CHR ''c'', CHR 0x22, CHR '']'']),
      (''user_id'', ''u''), (''total_cost'', ''5'')]"
    using h unfolding json_dumps_euro five .
  show ?thesis
    using h' d u s fresh a one two by (intro conjI)
qed

end
